theory Spec2Isabelle
  imports Complex_Main "HOL-Library.Multiset" "HOL-Library.List_Lexorder" "HOL-Library.Char_ord"
begin

section \<open>JavaScript numbers\<close>

text \<open>
  Amounts, quantities and prices are JavaScript numbers. The model keeps the special
  values of the number type and takes every finite value as an exact rational: the
  rounding of binary floating point is left out, the propagation of \<open>NaN\<close> and of the
  two infinities through \<open>+\<close>, \<open>-\<close>, \<open>Math.min\<close> and the comparisons is kept.
\<close>

datatype jsnum = NaN | NegInf | Fin rat | PosInf

fun js_isNaN :: "jsnum \<Rightarrow> bool" where
  "js_isNaN NaN = True"
| "js_isNaN _ = False"

fun js_neg :: "jsnum \<Rightarrow> jsnum" where
  "js_neg NaN = NaN"
| "js_neg NegInf = PosInf"
| "js_neg (Fin a) = Fin (- a)"
| "js_neg PosInf = NegInf"

fun js_add :: "jsnum \<Rightarrow> jsnum \<Rightarrow> jsnum" where
  "js_add NaN _ = NaN"
| "js_add _ NaN = NaN"
| "js_add (Fin a) (Fin b) = Fin (a + b)"
| "js_add PosInf NegInf = NaN"
| "js_add NegInf PosInf = NaN"
| "js_add PosInf _ = PosInf"
| "js_add _ PosInf = PosInf"
| "js_add NegInf _ = NegInf"
| "js_add _ NegInf = NegInf"

definition js_sub :: "jsnum \<Rightarrow> jsnum \<Rightarrow> jsnum" where
  "js_sub x y = js_add x (js_neg y)"

text \<open>\<open>x <= y\<close>: false as soon as one side is \<open>NaN\<close>.\<close>

fun js_le :: "jsnum \<Rightarrow> jsnum \<Rightarrow> bool" where
  "js_le NaN _ = False"
| "js_le _ NaN = False"
| "js_le NegInf _ = True"
| "js_le _ PosInf = True"
| "js_le (Fin a) (Fin b) = (a \<le> b)"
| "js_le _ _ = False"

text \<open>\<open>x > y\<close>: false as soon as one side is \<open>NaN\<close>.\<close>

fun js_gt :: "jsnum \<Rightarrow> jsnum \<Rightarrow> bool" where
  "js_gt NaN _ = False"
| "js_gt _ NaN = False"
| "js_gt NegInf _ = False"
| "js_gt _ PosInf = False"
| "js_gt (Fin a) (Fin b) = (a > b)"
| "js_gt _ _ = True"

text \<open>\<open>Math.min(x, y)\<close>.\<close>

definition js_min :: "jsnum \<Rightarrow> jsnum \<Rightarrow> jsnum" where
  "js_min x y = (if js_isNaN x \<or> js_isNaN y then NaN else if js_le x y then x else y)"

section \<open>Arrays and objects\<close>

text \<open>
  \<open>Array.prototype.sort(compare)\<close> is stable: elements that compare equal keep their
  order. For a comparator that is consistent this fixes the result, and insertion from
  the right computes it.
\<close>

fun insert_sorted :: "('a \<Rightarrow> 'a \<Rightarrow> int) \<Rightarrow> 'a \<Rightarrow> 'a list \<Rightarrow> 'a list" where
  "insert_sorted compare x [] = [x]"
| "insert_sorted compare x (y # ys) =
     (if compare x y \<le> 0 then x # y # ys else y # insert_sorted compare x ys)"

definition js_sort :: "('a \<Rightarrow> 'a \<Rightarrow> int) \<Rightarrow> 'a list \<Rightarrow> 'a list" where
  "js_sort compare xs = foldr (insert_sorted compare) xs []"

text \<open>
  An object used as a dictionary is a list of keys with their values, in the order in
  which the keys were inserted; this is the order of \<open>Object.values\<close> and
  \<open>Object.entries\<close> for keys that are not array indices (the keys here are identifiers,
  dates and product-price keys). \<open>upsert k fresh change\<close> stores \<open>fresh\<close> under a key
  that is new and applies \<open>change\<close> to the value of a key that is present.
\<close>

fun upsert :: "'k \<Rightarrow> 'v \<Rightarrow> ('v \<Rightarrow> 'v) \<Rightarrow> ('k \<times> 'v) list \<Rightarrow> ('k \<times> 'v) list" where
  "upsert k fresh change [] = [(k, fresh)]"
| "upsert k fresh change ((k', v) # kvs) =
     (if k' = k then (k', change v) # kvs else (k', v) # upsert k fresh change kvs)"

text \<open>A \<open>reduce\<close> that files every element under its key.\<close>

abbreviation collect :: "('a \<Rightarrow> 'k) \<Rightarrow> ('a \<Rightarrow> 'v) \<Rightarrow> ('a \<Rightarrow> 'v \<Rightarrow> 'v) \<Rightarrow> 'a list \<Rightarrow> ('k \<times> 'v) list" where
  "collect key fresh change xs \<equiv>
     foldl (\<lambda>acc x. upsert (key x) (fresh x) (change x) acc) [] xs"

text \<open>
  A comparator is consistent when "not after" (\<open>compare a b \<le> 0\<close>) is total and
  transitive; \<open>localeCompare\<close> is.
\<close>

definition consistent :: "('a \<Rightarrow> 'a \<Rightarrow> int) \<Rightarrow> bool" where
  "consistent cmp \<longleftrightarrow>
     (\<forall>a b. cmp a b \<le> 0 \<or> cmp b a \<le> 0) \<and>
     (\<forall>a b c. cmp a b \<le> 0 \<and> cmp b c \<le> 0 \<longrightarrow> cmp a c \<le> 0)"

section \<open>Entities\<close>

text \<open>
  \<open>OrderItem\<close> and \<open>DailyOrder\<close> as the pages read them. The store delivers the
  numeric columns as finite numbers; \<open>amount_paid\<close> may be \<open>null\<close> (\<open>None\<close>), which
  is why the code reads it as \<open>amount_paid || 0\<close>. \<open>date\<close> and \<open>created_at\<close> are kept as
  the millisecond timestamps that \<open>new Date(...).getTime()\<close> gives for them.
\<close>

record order_item =
  product_id :: string
  product_name :: string
  quantity :: rat
  unit :: string
  price :: rat
  total :: rat

record daily_order =
  oid :: string
  customer_id :: string
  customer_name :: string
  date :: int
  items :: "order_item list"
  total_amount :: rat
  amount_paid :: "rat option"
  created_at :: int

text \<open>\<open>o.amount_paid || 0\<close>\<close>

definition paid :: "daily_order \<Rightarrow> rat" where
  "paid ord = (case amount_paid ord of None \<Rightarrow> 0 | Some v \<Rightarrow> v)"

text \<open>\<open>o.total_amount - (o.amount_paid || 0)\<close>, the outstanding balance of an order.\<close>

abbreviation outstanding :: "daily_order \<Rightarrow> rat" where
  "outstanding ord \<equiv> total_amount ord - paid ord"

section \<open>Payment allocator (CustomerDetail, handleSavePayment)\<close>

record DailySummary =
  ds_date :: int
  ds_orders :: "daily_order list"
  ds_totalAmount :: rat
  ds_totalPaid :: rat
  ds_balance :: rat
  ds_allItems :: "order_item list"

text \<open>An entry of \<open>updates\<close>: \<open>orderId\<close> and \<open>newAmountPaid\<close>.\<close>

type_synonym update = "string \<times> jsnum"

text \<open>The \<open>for\<close> loop over \<open>pendingOrders\<close>, with its \<open>break\<close>.\<close>

fun payment_loop :: "jsnum \<Rightarrow> daily_order list \<Rightarrow> update list \<Rightarrow> jsnum \<times> update list" where
  "payment_loop amountToPay [] updates = (amountToPay, updates)"
| "payment_loop amountToPay (ord # rest) updates =
     (if js_le amountToPay (Fin 0) then (amountToPay, updates)
      else
        let orderBalance = Fin (outstanding ord);
            paymentForOrder = js_min amountToPay orderBalance
        in payment_loop (js_sub amountToPay paymentForOrder) rest
             (updates @ [(oid ord, js_add (Fin (paid ord)) paymentForOrder)]))"

definition pendingOrders :: "daily_order list \<Rightarrow> daily_order list" where
  "pendingOrders ords =
     js_sort (\<lambda>a b. created_at a - created_at b) (filter (\<lambda>ord. outstanding ord > 0) ords)"

definition addLeftover :: "jsnum \<Rightarrow> update list \<Rightarrow> update list" where
  "addLeftover amountToPay updates =
     butlast updates @ [(fst (last updates), js_add (snd (last updates)) amountToPay)]"

text \<open>The body of the \<open>try\<close> block up to the list of updates handed to \<open>updateOrder\<close>.\<close>

definition allocate_payment :: "jsnum \<Rightarrow> daily_order list \<Rightarrow> update list" where
  "allocate_payment amount ords =
     (case payment_loop amount (pendingOrders ords) [] of
        (amountToPay, updates) \<Rightarrow>
          if js_gt amountToPay (Fin 0) \<and> updates \<noteq> [] then addLeftover amountToPay updates
          else if js_gt amountToPay (Fin 0) then
            (case js_sort (\<lambda>a b. created_at b - created_at a) ords of
               [] \<Rightarrow> updates
             | mostRecentOrder # _ \<Rightarrow>
                 updates @ [(oid mostRecentOrder, js_add (Fin (paid mostRecentOrder)) amountToPay)])
          else updates)"

text \<open>
  What a click on "Save Payment" does. The arguments are \<open>paymentModal.summary\<close>, the
  value of \<open>parseFloat(paymentAmount)\<close> and the answer \<open>window.confirm\<close> gives if it is
  asked.
\<close>

datatype outcome = NoSummary | ValidationError | Declined | Saved "update list"

text \<open>The validation \<open>isNaN(amountToPay) || amountToPay <= 0\<close>.\<close>

definition rejects :: "jsnum \<Rightarrow> bool" where
  "rejects amountToPay = (js_isNaN amountToPay \<or> js_le amountToPay (Fin 0))"

definition handleSavePayment :: "DailySummary option \<Rightarrow> jsnum \<Rightarrow> bool \<Rightarrow> outcome" where
  "handleSavePayment summary amountToPay confirmed =
     (case summary of
        None \<Rightarrow> NoSummary
      | Some s \<Rightarrow>
          if rejects amountToPay then ValidationError
          else if js_gt amountToPay (Fin (ds_balance s)) \<and> \<not> confirmed then Declined
          else Saved (allocate_payment amountToPay (ds_orders s)))"

text \<open>
  Modelled from the spec: \<open>updateOrder\<close> of the entity store (AuthContext, not part of
  the sources at hand) sets \<open>amount_paid\<close> of the order with the given identifier. The
  amount an order holds once every update of the list is stored:
\<close>

definition new_amount_paid :: "update list \<Rightarrow> daily_order \<Rightarrow> jsnum" where
  "new_amount_paid updates ord =
     (case map_of updates (oid ord) of None \<Rightarrow> Fin (paid ord) | Some v \<Rightarrow> v)"

subsection \<open>The daily summaries the payment dialog is opened on (CustomerDetail)\<close>

text \<open>\<open>customerOrders\<close>: the orders of the customer shown, latest date first.\<close>

definition customerOrders :: "string option \<Rightarrow> daily_order list \<Rightarrow> daily_order list" where
  "customerOrders customerId ords =
     (case customerId of
        None \<Rightarrow> []
      | Some cid \<Rightarrow>
          if cid = [] then []
          else js_sort (\<lambda>a b. date b - date a) (filter (\<lambda>ord. customer_id ord = cid) ords))"

definition addToSummary :: "daily_order \<Rightarrow> DailySummary \<Rightarrow> DailySummary" where
  "addToSummary ord s =
     s\<lparr>ds_orders := ds_orders s @ [ord],
       ds_totalAmount := ds_totalAmount s + total_amount ord,
       ds_totalPaid := ds_totalPaid s + paid ord,
       ds_allItems := ds_allItems s @ items ord\<rparr>"

definition emptySummary :: "int \<Rightarrow> DailySummary" where
  "emptySummary d =
     \<lparr>ds_date = d, ds_orders = [], ds_totalAmount = 0, ds_totalPaid = 0, ds_balance = 0,
      ds_allItems = []\<rparr>"

definition groupedByDate :: "daily_order list \<Rightarrow> (int \<times> DailySummary) list" where
  "groupedByDate ords =
     foldl (\<lambda>acc ord. upsert (date ord) (addToSummary ord (emptySummary (date ord)))
                         (addToSummary ord) acc) [] ords"

definition dailySummaries :: "daily_order list \<Rightarrow> DailySummary list" where
  "dailySummaries ords =
     js_sort (\<lambda>a b. ds_date b - ds_date a)
       (map (\<lambda>summary. summary\<lparr>ds_balance := ds_totalAmount summary - ds_totalPaid summary\<rparr>)
            (map snd (groupedByDate ords)))"

section \<open>Order aggregator (Orders page, customerDailySummaries)\<close>

text \<open>
  Two functions of the JavaScript runtime are parameters of the model:
  \<open>localeCompare\<close>, the collation of strings that orders names, and \<open>numberToString\<close>,
  the text of a number inside a template literal.
\<close>

record CustomerDailySummary =
  cds_customerId :: string
  cds_customerName :: string
  cds_orderIds :: "string list"
  cds_allItems :: "order_item list"
  cds_totalAmount :: rat
  cds_amountPaid :: rat

definition dailyOrders :: "int \<Rightarrow> daily_order list \<Rightarrow> daily_order list" where
  "dailyOrders selectedDate ords = filter (\<lambda>ord. date ord = selectedDate) ords"

definition addToCustomerSummary :: "daily_order \<Rightarrow> CustomerDailySummary \<Rightarrow> CustomerDailySummary" where
  "addToCustomerSummary ord summary =
     summary\<lparr>cds_orderIds := cds_orderIds summary @ [oid ord],
             cds_allItems := cds_allItems summary @ items ord,
             cds_totalAmount := cds_totalAmount summary + total_amount ord,
             cds_amountPaid := cds_amountPaid summary + paid ord\<rparr>"

definition emptyCustomerSummary :: "daily_order \<Rightarrow> CustomerDailySummary" where
  "emptyCustomerSummary ord =
     \<lparr>cds_customerId = customer_id ord, cds_customerName = customer_name ord, cds_orderIds = [],
      cds_allItems = [], cds_totalAmount = 0, cds_amountPaid = 0\<rparr>"

definition summaryMap :: "daily_order list \<Rightarrow> (string \<times> CustomerDailySummary) list" where
  "summaryMap ords =
     foldl (\<lambda>acc ord. upsert (customer_id ord) (addToCustomerSummary ord (emptyCustomerSummary ord))
                         (addToCustomerSummary ord) acc) [] ords"

text \<open>The key \<open>`${item.product_id}-${item.price}`\<close>.\<close>

definition itemKey :: "(rat \<Rightarrow> string) \<Rightarrow> order_item \<Rightarrow> string" where
  "itemKey numberToString item = product_id item @ ''-'' @ numberToString (price item)"

definition mergeItem :: "order_item \<Rightarrow> order_item \<Rightarrow> order_item" where
  "mergeItem item row =
     row\<lparr>quantity := quantity row + quantity item, total := total row + total item\<rparr>"

definition aggregatedItems :: "(rat \<Rightarrow> string) \<Rightarrow> order_item list \<Rightarrow> (string \<times> order_item) list" where
  "aggregatedItems numberToString allItems =
     foldl (\<lambda>acc item. upsert (itemKey numberToString item) item (mergeItem item) acc) [] allItems"

text \<open>The merged rows of a summary, sorted by product name.\<close>

definition mergedItems ::
  "(string \<Rightarrow> string \<Rightarrow> int) \<Rightarrow> (rat \<Rightarrow> string) \<Rightarrow> order_item list \<Rightarrow> order_item list" where
  "mergedItems localeCompare numberToString allItems =
     js_sort (\<lambda>a b. localeCompare (product_name a) (product_name b))
       (map snd (aggregatedItems numberToString allItems))"

definition customerDailySummaries ::
  "(string \<Rightarrow> string \<Rightarrow> int) \<Rightarrow> (rat \<Rightarrow> string) \<Rightarrow> daily_order list \<Rightarrow> CustomerDailySummary list" where
  "customerDailySummaries localeCompare numberToString ords =
     js_sort (\<lambda>a b. localeCompare (cds_customerName a) (cds_customerName b))
       (map (\<lambda>summary. summary\<lparr>cds_allItems :=
                 mergedItems localeCompare numberToString (cds_allItems summary)\<rparr>)
            (map snd (summaryMap ords)))"

subsection \<open>Replace on edit (handleSaveEdit)\<close>




section \<open>Statement generator (Statement page)\<close>

record DailySummaryForStatement =
  dss_date :: int
  dss_totalAmount :: rat
  dss_totalPaid :: rat
  dss_balance :: rat
  dss_allItems :: "order_item list"

definition addToStatementDay :: "daily_order \<Rightarrow> DailySummaryForStatement \<Rightarrow> DailySummaryForStatement" where
  "addToStatementDay ord summary =
     summary\<lparr>dss_totalAmount := dss_totalAmount summary + total_amount ord,
             dss_totalPaid := dss_totalPaid summary + paid ord,
             dss_allItems := dss_allItems summary @ items ord\<rparr>"

definition emptyStatementDay :: "int \<Rightarrow> DailySummaryForStatement" where
  "emptyStatementDay d =
     \<lparr>dss_date = d, dss_totalAmount = 0, dss_totalPaid = 0, dss_balance = 0, dss_allItems = []\<rparr>"

definition statementGroupedByDate :: "daily_order list \<Rightarrow> (int \<times> DailySummaryForStatement) list" where
  "statementGroupedByDate ords =
     foldl (\<lambda>acc ord. upsert (date ord) (addToStatementDay ord (emptyStatementDay (date ord)))
                         (addToStatementDay ord) acc) [] ords"

definition getDailySummariesForStatement ::
  "(string \<Rightarrow> string \<Rightarrow> int) \<Rightarrow> (rat \<Rightarrow> string) \<Rightarrow> daily_order list \<Rightarrow> DailySummaryForStatement list" where
  "getDailySummariesForStatement localeCompare numberToString ords =
     js_sort (\<lambda>a b. dss_date b - dss_date a)
       (map (\<lambda>summary. summary\<lparr>
                 dss_allItems := mergedItems localeCompare numberToString (dss_allItems summary),
                 dss_balance := dss_totalAmount summary - dss_totalPaid summary\<rparr>)
            (map snd (statementGroupedByDate ords)))"

text \<open>\<open>setUTCHours(0, 0, 0, 0)\<close> on a timestamp: the start of its day in UTC.\<close>

definition utcMidnight :: "int \<Rightarrow> int" where
  "utcMidnight t = t - t mod 86400000"

record CustomerStatement =
  cs_customerId :: string
  cs_customerName :: string
  cs_orders :: "daily_order list"
  cs_totalAmount :: rat
  cs_totalPaid :: rat
  cs_pendingAmount :: rat

record StatementResult =
  customerStatements :: "CustomerStatement list"
  grandTotalAmount :: rat
  grandTotalPaid :: rat
  grandTotalPending :: rat
  totalOrders :: nat

text \<open>The predicate of \<open>orders.filter\<close>; the filter \<open>'all'\<close> selects every customer.\<close>

definition inStatement :: "string \<Rightarrow> int \<Rightarrow> int \<Rightarrow> daily_order \<Rightarrow> bool" where
  "inStatement forCustomerId rangeStart rangeEnd ord =
     (let orderDate = utcMidnight (date ord);
          startDate = utcMidnight rangeStart;
          endDate = utcMidnight rangeEnd;
          isDateInRange = (startDate \<le> orderDate \<and> orderDate \<le> endDate);
          isCustomerMatch = (forCustomerId = ''all'' \<or> customer_id ord = forCustomerId)
      in isDateInRange \<and> isCustomerMatch)"

definition ordersByCustomer :: "daily_order list \<Rightarrow> (string \<times> daily_order list) list" where
  "ordersByCustomer ords =
     foldl (\<lambda>acc ord. upsert (customer_id ord) [ord] (\<lambda>group. group @ [ord]) acc) [] ords"

text \<open>\<open>customerOrders[0]?.customer_name || 'Unknown'\<close>, on the orders of one customer.\<close>

definition statementName :: "daily_order list \<Rightarrow> string" where
  "statementName ordersOfCustomer =
     (case ordersOfCustomer of
        [] \<Rightarrow> ''Unknown''
      | first # _ \<Rightarrow> if customer_name first = [] then ''Unknown'' else customer_name first)"

definition customerStatement :: "string \<times> daily_order list \<Rightarrow> CustomerStatement" where
  "customerStatement entry =
     (case entry of
        (customerId, ordersOfCustomer) \<Rightarrow>
          let totalAmount = foldl (\<lambda>sum ord. sum + total_amount ord) 0 ordersOfCustomer;
              totalPaid = foldl (\<lambda>sum ord. sum + paid ord) 0 ordersOfCustomer
          in \<lparr>cs_customerId = customerId,
              cs_customerName = statementName ordersOfCustomer,
              cs_orders = js_sort (\<lambda>a b. date a - date b) ordersOfCustomer,
              cs_totalAmount = totalAmount,
              cs_totalPaid = totalPaid,
              cs_pendingAmount = totalAmount - totalPaid\<rparr>)"

definition generateStatementData ::
  "(string \<Rightarrow> string \<Rightarrow> int) \<Rightarrow> daily_order list \<Rightarrow> string \<Rightarrow> int \<Rightarrow> int \<Rightarrow> StatementResult" where
  "generateStatementData localeCompare ords forCustomerId rangeStart rangeEnd =
     (let filteredOrders = filter (inStatement forCustomerId rangeStart rangeEnd) ords;
          statements = map customerStatement (ordersByCustomer filteredOrders);
          grandAmount = foldl (\<lambda>sum cs. sum + cs_totalAmount cs) 0 statements;
          grandPaid = foldl (\<lambda>sum cs. sum + cs_totalPaid cs) 0 statements
      in \<lparr>customerStatements =
             js_sort (\<lambda>a b. localeCompare (cs_customerName a) (cs_customerName b)) statements,
          grandTotalAmount = grandAmount,
          grandTotalPaid = grandPaid,
          grandTotalPending = grandAmount - grandPaid,
          totalOrders = length filteredOrders\<rparr>)"

subsection \<open>Notions used to state and prove the properties of the allocator\<close>

text \<open>The sum of a list of numbers, added up as JavaScript adds.\<close>

definition js_sum :: "jsnum list \<Rightarrow> jsnum" where
  "js_sum xs = foldr js_add xs (Fin 0)"

text \<open>
  The specification's wording of the allocation (refinement target): for each order in
  turn, apply the minimum of the remaining payment and the order's outstanding balance,
  deduct it from the remaining payment and record the order's updated amount.
\<close>

fun spec_allocate :: "jsnum \<Rightarrow> daily_order list \<Rightarrow> update list" where
  "spec_allocate remaining [] = []"
| "spec_allocate remaining (ord # rest) =
     (let applied = js_min remaining (Fin (outstanding ord))
      in (oid ord, js_add (Fin (paid ord)) applied) # spec_allocate (js_sub remaining applied) rest)"

fun spec_remaining :: "jsnum \<Rightarrow> daily_order list \<Rightarrow> jsnum" where
  "spec_remaining remaining [] = remaining"
| "spec_remaining remaining (ord # rest) =
     spec_remaining (js_sub remaining (js_min remaining (Fin (outstanding ord)))) rest"

text \<open>
  The loop and the allocation on a finite amount, where every number involved stays
  finite. The lemmas \<open>payment_loop_Fin\<close> and \<open>allocate_payment_Fin\<close> show that they
  are the functions above at a finite amount; the proofs work on them.
\<close>

fun fin_loop :: "rat \<Rightarrow> daily_order list \<Rightarrow> rat \<times> (string \<times> rat) list" where
  "fin_loop r [] = (r, [])"
| "fin_loop r (ord # rest) =
     (if r \<le> 0 then (r, [])
      else
        let p = min r (outstanding ord);
            res = fin_loop (r - p) rest
        in (fst res, (oid ord, paid ord + p) # snd res))"

definition fin_allocate :: "rat \<Rightarrow> daily_order list \<Rightarrow> (string \<times> rat) list" where
  "fin_allocate a ords =
     (case fin_loop a (pendingOrders ords) of
        (r, U) \<Rightarrow>
          if 0 < r \<and> U \<noteq> [] then butlast U @ [(fst (last U), snd (last U) + r)]
          else if 0 < r then
            (case js_sort (\<lambda>a b. created_at b - created_at a) ords of
               [] \<Rightarrow> U
             | mostRecentOrder # _ \<Rightarrow> U @ [(oid mostRecentOrder, paid mostRecentOrder + r)])
          else U)"

definition finite_updates :: "(string \<times> rat) list \<Rightarrow> update list" where
  "finite_updates U = map (\<lambda>(i, v). (i, Fin v)) U"

definition fin_new :: "(string \<times> rat) list \<Rightarrow> daily_order \<Rightarrow> rat" where
  "fin_new U ord = (case map_of U (oid ord) of None \<Rightarrow> paid ord | Some v \<Rightarrow> v)"

subsection \<open>The orders of the specification's examples\<close>

definition example_order1 :: daily_order where
  "example_order1 = \<lparr>oid = ''order1'', customer_id = ''customer1'', customer_name = ''Asha'',
     date = 0, items = [], total_amount = 100, amount_paid = Some 0, created_at = 1\<rparr>"

definition example_order2 :: daily_order where
  "example_order2 = \<lparr>oid = ''order2'', customer_id = ''customer1'', customer_name = ''Asha'',
     date = 0, items = [], total_amount = 50, amount_paid = Some 0, created_at = 2\<rparr>"

definition example_paid_order :: daily_order where
  "example_paid_order = \<lparr>oid = ''order3'', customer_id = ''customer1'', customer_name = ''Asha'',
     date = 0, items = [], total_amount = 30, amount_paid = Some 30, created_at = 3\<rparr>"

definition example_summary :: DailySummary where
  "example_summary = \<lparr>ds_date = 0, ds_orders = [example_order1, example_order2],
     ds_totalAmount = 150, ds_totalPaid = 0, ds_balance = 150, ds_allItems = []\<rparr>"

definition example_item :: order_item where
  "example_item = \<lparr>product_id = ''product1'', product_name = ''Milk'', quantity = 2,
     unit = ''litre'', price = 50, total = 100\<rparr>"


text \<open>
  For the examples: strings compared code unit by code unit, a consistent comparator,
  and the text of the prices that occur.
\<close>

definition codeUnitCompare :: "string \<Rightarrow> string \<Rightarrow> int" where
  "codeUnitCompare a b = (if a < b then - 1 else if a = b then 0 else 1)"

definition example_numberToString :: "rat \<Rightarrow> string" where
  "example_numberToString p =
     (if p = 30 then ''30'' else if p = 50 then ''50'' else if p = 55 then ''55'' else ''0'')"

definition example_curd :: order_item where
  "example_curd = \<lparr>product_id = ''product2'', product_name = ''Curd'', quantity = 1,
     unit = ''kg'', price = 30, total = 30\<rparr>"

definition example_morning_order :: daily_order where
  "example_morning_order = \<lparr>oid = ''order5'', customer_id = ''customer1'', customer_name = ''Asha'',
     date = 0, items = [example_item, example_curd], total_amount = 130, amount_paid = Some 100,
     created_at = 1\<rparr>"

definition example_evening_order :: daily_order where
  "example_evening_order = \<lparr>oid = ''order6'', customer_id = ''customer1'', customer_name = ''Asha'',
     date = 0,
     items = [example_item\<lparr>quantity := 1, total := 50\<rparr>,
              example_item\<lparr>quantity := 1, price := 55, total := 55\<rparr>],
     total_amount = 105, amount_paid = None, created_at = 2\<rparr>"

definition example_late_order :: daily_order where
  "example_late_order = \<lparr>oid = ''order7'', customer_id = ''customer2'', customer_name = ''Bina'',
     date = 259200000, items = [], total_amount = 40, amount_paid = Some 40, created_at = 4\<rparr>"

section \<open>Box calculator (Boxes.tsx, calculateBoxNeeds)\<close>

text \<open>
  \<open>Math.floor\<close> on a finite number, and the remainder operator \<open>%\<close> of JavaScript,
  whose result has the sign of the dividend: \<open>a % b = a - b * trunc (a / b)\<close>.
\<close>

definition math_floor :: "rat \<Rightarrow> rat" where
  "math_floor q = of_int \<lfloor>q\<rfloor>"

definition js_trunc :: "rat \<Rightarrow> rat" where
  "js_trunc q = (if 0 \<le> q then of_int \<lfloor>q\<rfloor> else of_int \<lceil>q\<rceil>)"

definition js_rem :: "rat \<Rightarrow> rat \<Rightarrow> rat" where
  "js_rem a b = a - b * js_trunc (a / b)"

record box_needs =
  fullBoxes :: rat
  remainingPieces :: rat
  neededForNextBox :: rat

text \<open>\<open>None\<close> is the \<open>null\<close> returned when no box size is configured.\<close>

definition calculateBoxNeeds :: "rat \<Rightarrow> rat \<Rightarrow> box_needs option" where
  "calculateBoxNeeds totalQuantity piecesPerBox =
     (if piecesPerBox \<le> 0 then None
      else
        let fullBoxes = math_floor (totalQuantity / piecesPerBox);
            remainingPieces = js_rem totalQuantity piecesPerBox;
            neededForNextBox = (if remainingPieces = 0 then 0 else piecesPerBox - remainingPieces)
        in Some \<lparr>fullBoxes = fullBoxes, remainingPieces = remainingPieces,
                  neededForNextBox = neededForNextBox\<rparr>)"

section \<open>Properties of the box calculator\<close>

lemma js_rem_nonneg: "0 \<le> a \<Longrightarrow> 0 < b \<Longrightarrow> js_rem a b = a - b * of_int \<lfloor>a / b\<rfloor>"
  by (simp add: js_rem_def js_trunc_def)

lemma floor_rem_range:
  "0 < (b::rat) \<Longrightarrow> 0 \<le> a - b * of_int \<lfloor>a / b\<rfloor> \<and> a - b * of_int \<lfloor>a / b\<rfloor> < b"
  using floor_divide_lower[of b a] floor_divide_upper[of b a]
  by (simp add: algebra_simps)

lemma ceiling_rem_range:
  "0 < (b::rat) \<Longrightarrow> - b < a - b * of_int \<lceil>a / b\<rceil> \<and> a - b * of_int \<lceil>a / b\<rceil> \<le> 0"
  using ceiling_divide_lower[of b a] ceiling_divide_upper[of b a]
  by (simp add: algebra_simps)

lemma js_rem_less: "0 < b \<Longrightarrow> js_rem a b < b"
  using floor_rem_range[of b a] ceiling_rem_range[of b a]
  by (auto simp: js_rem_def js_trunc_def)

text \<open>
  C8, as the claim states it, fails on a negative quantity: \<open>Math.floor\<close> rounds down
  and \<open>%\<close> truncates, so full boxes and loose pieces no longer add up.
\<close>

theorem box_negative_quantity_counterexample:
  "calculateBoxNeeds (- 7) 5
     = Some \<lparr>fullBoxes = - 2, remainingPieces = - 2, neededForNextBox = 7\<rparr>
   \<and> (- 2 :: rat) * 5 + (- 2) \<noteq> - 7"
  by code_simp

text \<open>
  C8 (amended): no result for a box size that is zero or negative. For a positive box
  size the calculator returns the floor of the quotient as full boxes, and the pieces
  needed for the next box are zero exactly when no loose piece remains, and the box size
  minus the loose pieces otherwise. For a quantity that is not negative the loose pieces
  are the remainder of the floored division, they lie between zero and the box size, and
  full boxes times box size plus loose pieces gives back the quantity.
\<close>

theorem box_calculator_correct:
  "(piecesPerBox \<le> 0 \<longrightarrow> calculateBoxNeeds totalQuantity piecesPerBox = None) \<and>
   (0 < piecesPerBox \<longrightarrow>
      (\<exists>r. calculateBoxNeeds totalQuantity piecesPerBox = Some r \<and>
           fullBoxes r = of_int \<lfloor>totalQuantity / piecesPerBox\<rfloor> \<and>
           (neededForNextBox r = 0 \<longleftrightarrow> remainingPieces r = 0) \<and>
           (remainingPieces r \<noteq> 0 \<longrightarrow> neededForNextBox r = piecesPerBox - remainingPieces r) \<and>
           (0 \<le> totalQuantity \<longrightarrow>
              remainingPieces r = totalQuantity - piecesPerBox * of_int \<lfloor>totalQuantity / piecesPerBox\<rfloor> \<and>
              0 \<le> remainingPieces r \<and> remainingPieces r < piecesPerBox \<and>
              fullBoxes r * piecesPerBox + remainingPieces r = totalQuantity)))"
proof (intro conjI impI)
  assume "piecesPerBox \<le> 0"
  then show "calculateBoxNeeds totalQuantity piecesPerBox = None"
    by (simp add: calculateBoxNeeds_def)
next
  assume pos: "0 < piecesPerBox"
  let ?r = "\<lparr>fullBoxes = math_floor (totalQuantity / piecesPerBox),
             remainingPieces = js_rem totalQuantity piecesPerBox,
             neededForNextBox = (if js_rem totalQuantity piecesPerBox = 0 then 0
                                 else piecesPerBox - js_rem totalQuantity piecesPerBox)\<rparr>"
  have res: "calculateBoxNeeds totalQuantity piecesPerBox = Some ?r"
    using pos by (simp add: calculateBoxNeeds_def Let_def)
  have lt: "js_rem totalQuantity piecesPerBox < piecesPerBox"
    using pos by (rule js_rem_less)
  have needed: "(neededForNextBox ?r = 0) = (remainingPieces ?r = 0)"
    using lt by simp
  have nonneg: "0 \<le> totalQuantity \<longrightarrow>
      remainingPieces ?r = totalQuantity - piecesPerBox * of_int \<lfloor>totalQuantity / piecesPerBox\<rfloor> \<and>
      0 \<le> remainingPieces ?r \<and> remainingPieces ?r < piecesPerBox \<and>
      fullBoxes ?r * piecesPerBox + remainingPieces ?r = totalQuantity"
    using pos floor_rem_range[of piecesPerBox totalQuantity]
    by (simp add: js_rem_nonneg math_floor_def algebra_simps)
  show "\<exists>r. calculateBoxNeeds totalQuantity piecesPerBox = Some r \<and>
           fullBoxes r = of_int \<lfloor>totalQuantity / piecesPerBox\<rfloor> \<and>
           (neededForNextBox r = 0 \<longleftrightarrow> remainingPieces r = 0) \<and>
           (remainingPieces r \<noteq> 0 \<longrightarrow> neededForNextBox r = piecesPerBox - remainingPieces r) \<and>
           (0 \<le> totalQuantity \<longrightarrow>
              remainingPieces r = totalQuantity - piecesPerBox * of_int \<lfloor>totalQuantity / piecesPerBox\<rfloor> \<and>
              0 \<le> remainingPieces r \<and> remainingPieces r < piecesPerBox \<and>
              fullBoxes r * piecesPerBox + remainingPieces r = totalQuantity)"
    apply (rule exI[of _ ?r])
    apply (intro conjI)
        apply (rule res)
       apply (simp add: math_floor_def)
      apply (rule needed)
     apply simp
    apply (rule nonneg)
    done
qed

theorem box_calculator_correct_witness:
  "(0::rat) < 5 \<and> (0::rat) \<le> 23 \<and> \<not> (0::rat) \<le> 0 - 1 \<and>
   calculateBoxNeeds 23 0 = None \<and>
   (\<exists>r. calculateBoxNeeds 23 5 = Some r \<and> fullBoxes r = 4 \<and> remainingPieces r = 3 \<and>
        neededForNextBox r = 2 \<and> fullBoxes r * 5 + remainingPieces r = 23)"
proof -
  have none: "calculateBoxNeeds 23 0 = None"
    using box_calculator_correct[of 0 23] by simp
  have fl: "\<lfloor>(23::rat) / 5\<rfloor> = 4"
    by code_simp
  obtain r where r: "calculateBoxNeeds 23 5 = Some r"
    "fullBoxes r = of_int \<lfloor>(23::rat) / 5\<rfloor>"
    "remainingPieces r \<noteq> 0 \<longrightarrow> neededForNextBox r = 5 - remainingPieces r"
    "remainingPieces r = 23 - 5 * of_int \<lfloor>(23::rat) / 5\<rfloor>"
    "fullBoxes r * 5 + remainingPieces r = 23"
    using box_calculator_correct[of 5 23] by auto
  have "fullBoxes r = 4" "remainingPieces r = 3" "neededForNextBox r = 2"
    using r(2,3,4) by (simp_all add: fl)
  with r(1,5) none show ?thesis by auto
qed

section \<open>Sorting with a comparator\<close>

lemma insert_sorted_key:
  "insert_sorted (\<lambda>a b. f a - f b) x ys = insort_key f x ys"
  by (induction ys) simp_all

lemma js_sort_ascending: "js_sort (\<lambda>a b. f a - f b) xs = sort_key f xs"
  by (induction xs) (simp_all add: js_sort_def insert_sorted_key)

lemma insert_sorted_key_desc:
  "insert_sorted (\<lambda>a b. f b - f a) x ys = insort_key (\<lambda>a. - f a) x ys"
  by (induction ys) simp_all

lemma js_sort_descending: "js_sort (\<lambda>a b. f b - f a) xs = sort_key (\<lambda>a. - f a) xs"
  by (induction xs) (simp_all add: js_sort_def insert_sorted_key_desc)

section \<open>Properties of the payment allocator\<close>

lemma pendingOrders_eq:
  "pendingOrders ords = sort_key created_at (filter (\<lambda>ord. 0 < outstanding ord) ords)"
  by (simp add: pendingOrders_def js_sort_ascending)

lemma mostRecent_eq [simp]:
  "js_sort (\<lambda>a b. created_at b - created_at a) ords = sort_key (\<lambda>ord. - created_at ord) ords"
  by (rule js_sort_descending)

lemma finite_updates_simps [simp]:
  "finite_updates [] = []"
  "finite_updates ((i, v) # U) = (i, Fin v) # finite_updates U"
  "finite_updates (U @ V) = finite_updates U @ finite_updates V"
  by (simp_all add: finite_updates_def)

lemma js_sub_simps [simp]:
  "js_sub (Fin a) (Fin b) = Fin (a - b)"
  "js_sub PosInf (Fin b) = PosInf"
  by (simp_all add: js_sub_def)

lemma js_min_simps [simp]:
  "js_min (Fin a) (Fin b) = Fin (min a b)"
  "js_min PosInf (Fin b) = Fin b"
  by (simp_all add: js_min_def min_def)

lemma payment_loop_Fin:
  "payment_loop (Fin r) os ups =
     (Fin (fst (fin_loop r os)), ups @ finite_updates (snd (fin_loop r os)))"
proof (induction os arbitrary: r ups)
  case Nil
  show ?case by simp
next
  case (Cons ord rest)
  show ?case
  proof (cases "r \<le> 0")
    case True
    then show ?thesis by simp
  next
    case False
    then show ?thesis
      by (simp add: Cons.IH Let_def)
  qed
qed

lemma payment_loop_PosInf:
  "payment_loop PosInf os ups = (PosInf, ups @ map (\<lambda>ord. (oid ord, Fin (total_amount ord))) os)"
  by (induction os arbitrary: ups) simp_all


lemma new_amount_paid_finite:
  "new_amount_paid (finite_updates U) ord = Fin (fin_new U ord)"
  by (simp add: new_amount_paid_def fin_new_def finite_updates_def map_of_map split: option.splits)

lemma fin_loop_keys:
  "map fst (snd (fin_loop r os)) = map oid (take (length (snd (fin_loop r os))) os)"
  by (induction os arbitrary: r) (simp_all add: Let_def)

lemma fin_loop_keys_subset: "fst ` set (snd (fin_loop r os)) \<subseteq> oid ` set os"
proof -
  have "set (map fst (snd (fin_loop r os))) \<subseteq> set (map oid os)"
    by (subst fin_loop_keys) (auto dest: in_set_takeD)
  then show ?thesis by simp
qed

lemma fin_new_fresh: "oid ord \<notin> fst ` set U \<Longrightarrow> fin_new U ord = paid ord"
  by (simp add: fin_new_def map_of_eq_None_iff[THEN iffD2])

lemma fin_loop_sum:
  "distinct (map oid os) \<Longrightarrow>
   sum_list (map (\<lambda>ord. fin_new (snd (fin_loop r os)) ord - paid ord) os) = r - fst (fin_loop r os)"
proof (induction os arbitrary: r)
  case Nil
  show ?case by simp
next
  case (Cons ord rest)
  show ?case
  proof (cases "r \<le> 0")
    case True
    then show ?thesis by (simp add: fin_new_def)
  next
    case False
    let ?p = "min r (outstanding ord)"
    let ?res = "fin_loop (r - ?p) rest"
    have same: "fin_new ((oid ord, paid ord + ?p) # snd ?res) x = fin_new (snd ?res) x"
      if "x \<in> set rest" for x
    proof -
      from that have "oid x \<in> oid ` set rest" by (rule imageI)
      with Cons.prems have "oid x \<noteq> oid ord" by auto
      then show ?thesis by (simp add: fin_new_def)
    qed
    have "sum_list (map (\<lambda>x. fin_new ((oid ord, paid ord + ?p) # snd ?res) x - paid x) rest)
        = sum_list (map (\<lambda>x. fin_new (snd ?res) x - paid x) rest)"
      by (rule arg_cong[where f = sum_list], rule map_cong) (simp_all add: same)
    also have "\<dots> = (r - ?p) - fst ?res"
      using Cons.prems by (intro Cons.IH) simp
    finally show ?thesis
      using False by (simp add: Let_def fin_new_def)
  qed
qed

lemma fin_loop_nonneg: "0 \<le> r \<Longrightarrow> 0 \<le> fst (fin_loop r os)"
  by (induction os arbitrary: r) (simp_all add: Let_def)

lemma fin_loop_pos:
  "0 < fst (fin_loop r os) \<Longrightarrow>
   snd (fin_loop r os) = map (\<lambda>ord. (oid ord, total_amount ord)) os \<and>
   fst (fin_loop r os) = r - sum_list (map outstanding os)"
proof (induction os arbitrary: r)
  case Nil
  show ?case by simp
next
  case (Cons ord rest)
  show ?case
  proof (cases "r \<le> 0")
    case True
    with Cons.prems show ?thesis by simp
  next
    case False
    let ?p = "min r (outstanding ord)"
    from Cons.prems False have pos: "0 < fst (fin_loop (r - ?p) rest)"
      by (simp add: Let_def)
    have "0 < r - ?p"
    proof (rule ccontr)
      assume "\<not> 0 < r - ?p"
      then have "fin_loop (r - ?p) rest = (r - ?p, [])"
        by (cases rest) simp_all
      with pos \<open>\<not> 0 < r - ?p\<close> show False by simp
    qed
    then have p: "?p = outstanding ord"
      by (simp add: min_def split: if_splits)
    from Cons.IH[OF pos] show ?thesis
      using False p by (simp add: Let_def)
  qed
qed

lemma fin_loop_empty_iff: "snd (fin_loop r os) = [] \<longleftrightarrow> r \<le> 0 \<or> os = []"
  by (cases os) (simp_all add: Let_def)

lemma fin_loop_bounds:
  "distinct (map oid os) \<Longrightarrow> \<forall>x\<in>set os. 0 \<le> outstanding x \<Longrightarrow> ord \<in> set os \<Longrightarrow>
   paid ord \<le> fin_new (snd (fin_loop r os)) ord \<and>
   fin_new (snd (fin_loop r os)) ord \<le> total_amount ord"
proof (induction os arbitrary: r)
  case Nil
  then show ?case by simp
next
  case (Cons x rest)
  show ?case
  proof (cases "r \<le> 0")
    case True
    with Cons.prems show ?thesis by (auto simp: fin_new_def)
  next
    case False
    show ?thesis
    proof (cases "ord = x")
      case True
      with False Cons.prems(2) show ?thesis
        by (simp add: Let_def fin_new_def min_def)
    next
      case neq: False
      with Cons.prems have mem: "ord \<in> set rest"
        by auto
      then have "oid ord \<in> oid ` set rest" by (rule imageI)
      with Cons.prems have "oid ord \<noteq> oid x" by auto
      with mem show ?thesis
        using False Cons.IH[of "r - min r (outstanding x)"] Cons.prems
        by (simp add: Let_def fin_new_def)
    qed
  qed
qed


lemma finite_updates_Nil_iff [simp]: "finite_updates U = [] \<longleftrightarrow> U = []"
  by (simp add: finite_updates_def)

lemma addLeftover_finite:
  "U \<noteq> [] \<Longrightarrow>
   addLeftover (Fin r) (finite_updates U) = finite_updates (butlast U @ [(fst (last U), snd (last U) + r)])"
  by (simp add: addLeftover_def finite_updates_def map_butlast last_map split_beta)

lemma allocate_payment_Fin:
  "allocate_payment (Fin a) ords = finite_updates (fin_allocate a ords)"
proof -
  obtain r U where loop: "fin_loop a (pendingOrders ords) = (r, U)"
    by (cases "fin_loop a (pendingOrders ords)")
  show ?thesis
    by (cases "sort_key (\<lambda>ord. - created_at ord) ords")
       (simp_all add: allocate_payment_def fin_allocate_def payment_loop_Fin loop addLeftover_finite)
qed

lemma addLeftover_PosInf:
  "os \<noteq> [] \<Longrightarrow>
   addLeftover PosInf (map (\<lambda>ord. (oid ord, Fin (total_amount ord))) os) =
     map (\<lambda>ord. (oid ord, Fin (total_amount ord))) (butlast os) @ [(oid (last os), PosInf)]"
  by (simp add: addLeftover_def map_butlast last_map)

lemma allocate_payment_PosInf:
  "allocate_payment PosInf ords =
     (if pendingOrders ords \<noteq> [] then
        map (\<lambda>ord. (oid ord, Fin (total_amount ord))) (butlast (pendingOrders ords))
          @ [(oid (last (pendingOrders ords)), PosInf)]
      else (case sort_key (\<lambda>ord. - created_at ord) ords of
              [] \<Rightarrow> []
            | mostRecentOrder # _ \<Rightarrow> [(oid mostRecentOrder, PosInf)]))"
  by (cases "sort_key (\<lambda>ord. - created_at ord) ords")
     (simp_all add: allocate_payment_def payment_loop_PosInf addLeftover_PosInf)


lemma set_pendingOrders [simp]:
  "set (pendingOrders ords) = {ord \<in> set ords. 0 < outstanding ord}"
  by (auto simp: pendingOrders_eq)

lemma distinct_oid_inj: "distinct (map oid ords) \<Longrightarrow> inj_on oid (set ords)"
  by (simp add: distinct_map)

lemma oid_eq_iff:
  "distinct (map oid ords) \<Longrightarrow> x \<in> set ords \<Longrightarrow> y \<in> set ords \<Longrightarrow> oid x = oid y \<longleftrightarrow> x = y"
  by (auto dest: distinct_oid_inj inj_onD)

lemma distinct_pendingOrders:
  "distinct (map oid ords) \<Longrightarrow> distinct (map oid (pendingOrders ords))"
  by (auto simp: distinct_map pendingOrders_eq intro: inj_on_subset)

lemma pendingOrders_nonneg: "\<forall>x\<in>set (pendingOrders ords). 0 \<le> outstanding x"
  by simp

lemma mostRecent:
  "sort_key (\<lambda>ord. - created_at ord) ords = m # rest \<Longrightarrow>
   m \<in> set ords \<and> (\<forall>x\<in>set ords. created_at x \<le> created_at m)"
proof -
  assume eq: "sort_key (\<lambda>ord. - created_at ord) ords = m # rest"
  have "set (m # rest) = set ords"
    by (subst eq[symmetric]) simp
  moreover have "sorted (map (\<lambda>ord. - created_at ord) (m # rest))"
    by (subst eq[symmetric]) (rule sorted_sort_key)
  ultimately show ?thesis by auto
qed

lemma map_of_bump_last:
  "distinct (map fst U) \<Longrightarrow> U \<noteq> [] \<Longrightarrow>
   map_of (butlast U @ [(fst (last U), v)]) k = (if k = fst (last U) then Some v else map_of U k)"
proof (induction U rule: rev_induct)
  case Nil
  then show ?case by simp
next
  case (snoc x U)
  obtain i w where x: "x = (i, w)" by (cases x)
  from snoc.prems have "i \<notin> fst ` set U" by (auto simp: x)
  then have "map_of U i = None" by (simp add: map_of_eq_None_iff)
  then show ?case
    by (auto simp: x map_add_def split: option.splits)
qed

lemma fin_loop_distinct:
  "distinct (map oid os) \<Longrightarrow> distinct (map fst (snd (fin_loop r os)))"
  by (subst fin_loop_keys) (simp flip: take_map)

text \<open>The finite allocation: what the loop gave, plus the remainder on one order.\<close>

lemma fin_allocate_master:
  assumes a: "0 < a" and d: "distinct (map oid ords)" and ne: "ords \<noteq> []"
  shows "\<exists>t\<in>set ords. (pendingOrders ords \<noteq> [] \<longrightarrow> t \<in> set (pendingOrders ords)) \<and>
           (\<forall>ord\<in>set ords. fin_new (fin_allocate a ords) ord =
              fin_new (snd (fin_loop a (pendingOrders ords))) ord
                + (if ord = t then fst (fin_loop a (pendingOrders ords)) else 0))"
proof -
  let ?P = "pendingOrders ords"
  obtain r U where loop: "fin_loop a ?P = (r, U)"
    by (cases "fin_loop a ?P")
  have r0: "0 \<le> r"
    using fin_loop_nonneg[of a ?P] a loop by simp
  have sub: "set ?P \<subseteq> set ords" by auto
  consider (none) "r = 0" | (last) "0 < r" "U \<noteq> []" | (recent) "0 < r" "U = []"
    using r0 by fastforce
  then show ?thesis
  proof cases
    case none
    have F: "fin_allocate a ords = U"
      using none by (simp add: fin_allocate_def loop)
    obtain t where t: "t \<in> set ords" "?P \<noteq> [] \<longrightarrow> t \<in> set ?P"
    proof (cases "?P = []")
      case True
      with ne that[of "hd ords"] show thesis by simp
    next
      case False
      then have "hd ?P \<in> set ?P" by (rule hd_in_set)
      with sub that[of "hd ?P"] show thesis by blast
    qed
    show ?thesis
      using t none by (intro bexI[of _ t]) (simp_all add: F loop)
  next
    case last
    from fin_loop_pos[of a ?P] last(1) loop
    have U: "U = map (\<lambda>ord. (oid ord, total_amount ord)) ?P"
      by simp
    with last(2) have P: "?P \<noteq> []" by auto
    then have lastP: "last ?P \<in> set ?P" by (rule last_in_set)
    have lastU: "fst (last U) = oid (last ?P)" "snd (last U) = total_amount (last ?P)"
      using P by (simp_all add: U last_map)
    have dU: "distinct (map fst U)"
      using fin_loop_distinct[OF distinct_pendingOrders[OF d], of a] loop by simp
    have F: "fin_allocate a ords = butlast U @ [(fst (last U), snd (last U) + r)]"
      using last by (simp add: fin_allocate_def loop)
    have mU: "map_of U (oid (last ?P)) = Some (total_amount (last ?P))"
      using dU last(2) lastU by (metis Some_eq_map_of_iff last_in_set prod.collapse)
    have bump: "map_of (fin_allocate a ords) k =
        (if k = oid (last ?P) then Some (total_amount (last ?P) + r) else map_of U k)" for k
      using map_of_bump_last[OF dU last(2), of "snd (last U) + r" k] unfolding F lastU .
    have "fin_new (fin_allocate a ords) ord = fin_new U ord + (if ord = last ?P then r else 0)"
      if "ord \<in> set ords" for ord
    proof (cases "ord = last ?P")
      case True
      then show ?thesis
        using mU by (simp add: fin_new_def bump)
    next
      case False
      with that lastP sub have "oid ord \<noteq> oid (last ?P)"
        using oid_eq_iff[OF d, of ord "last ?P"] by blast
      then show ?thesis
        using False by (simp add: fin_new_def bump)
    qed
    with lastP sub P show ?thesis
      by (intro bexI[of _ "last ?P"]) (auto simp: loop)
  next
    case recent
    from recent(2) loop a have P: "?P = []"
      using fin_loop_empty_iff[of a ?P] by simp
    obtain m rest where srt: "sort_key (\<lambda>ord. - created_at ord) ords = m # rest"
      using ne by (cases "sort_key (\<lambda>ord. - created_at ord) ords") (auto dest: arg_cong[where f = set])
    then have m: "m \<in> set ords" by (simp add: mostRecent)
    have F: "fin_allocate a ords = [(oid m, paid m + r)]"
      using recent by (simp add: fin_allocate_def loop srt)
    have "fin_new (fin_allocate a ords) ord = fin_new U ord + (if ord = m then r else 0)"
      if "ord \<in> set ords" for ord
      using oid_eq_iff[OF d that m] recent(2) by (auto simp: F fin_new_def)
    moreover from loop P have "fin_loop a [] = (r, U)" by simp
    ultimately show ?thesis
      using m P by (intro bexI[of _ m]) auto
  qed
qed


lemma js_sum_simps [simp]:
  "js_sum [] = Fin 0"
  "js_sum (x # xs) = js_add x (js_sum xs)"
  by (simp_all add: js_sum_def)

lemma js_sum_Fin:
  "(\<And>x. x \<in> set xs \<Longrightarrow> f x = Fin (g x)) \<Longrightarrow> js_sum (map f xs) = Fin (sum_list (map g xs))"
  by (induction xs) simp_all

lemma js_sum_no_loss:
  "(\<And>x. x \<in> set xs \<Longrightarrow> x = PosInf \<or> (\<exists>q. x = Fin q)) \<Longrightarrow>
   js_sum xs = (if PosInf \<in> set xs then PosInf else Fin (sum_list (map (\<lambda>x. case x of Fin q \<Rightarrow> q | _ \<Rightarrow> 0) xs)))"
proof (induction xs)
  case Nil
  show ?case by simp
next
  case (Cons x xs)
  then have IH: "js_sum xs = (if PosInf \<in> set xs then PosInf
       else Fin (sum_list (map (\<lambda>x. case x of Fin q \<Rightarrow> q | _ \<Rightarrow> 0) xs)))"
    by simp
  from Cons.prems[of x] have "x = PosInf \<or> (\<exists>q. x = Fin q)" by simp
  then show ?case
    by (auto simp: IH)
qed

lemma sum_list_single:
  fixes c :: rat
  shows "distinct xs \<Longrightarrow> t \<in> set xs \<Longrightarrow> sum_list (map (\<lambda>x. if x = t then c else 0) xs) = c"
  by (simp add: sum_list_distinct_conv_sum_set)

lemma sum_pending:
  assumes d: "distinct (map oid ords)" and keys: "fst ` set U \<subseteq> oid ` set (pendingOrders ords)"
  shows "sum_list (map (\<lambda>ord. fin_new U ord - paid ord) ords)
       = sum_list (map (\<lambda>ord. fin_new U ord - paid ord) (pendingOrders ords))"
proof -
  let ?P = "pendingOrders ords"
  let ?f = "\<lambda>ord. fin_new U ord - paid ord"
  have dO: "distinct ords" using d by (simp add: distinct_map)
  have dP: "distinct ?P" using distinct_pendingOrders[OF d] by (simp add: distinct_map)
  have zero: "?f x = 0" if "x \<in> set ords - set ?P" for x
  proof -
    have "oid x \<notin> oid ` set ?P"
    proof
      assume "oid x \<in> oid ` set ?P"
      then obtain p where p: "p \<in> set ?P" "oid x = oid p" by auto
      then have "p \<in> set ords" by simp
      with that p oid_eq_iff[OF d, of x p] show False by auto
    qed
    with keys have "oid x \<notin> fst ` set U" by blast
    then show ?thesis by (simp add: fin_new_fresh)
  qed
  have "sum_list (map ?f ords) = sum ?f (set ords)"
    using dO by (simp add: sum_list_distinct_conv_sum_set)
  also have "\<dots> = sum ?f (set ?P)"
    by (rule sum.mono_neutral_right) (use zero in auto)
  also have "\<dots> = sum_list (map ?f ?P)"
    using dP by (simp add: sum_list_distinct_conv_sum_set)
  finally show ?thesis .
qed

lemma fin_allocate_conservation:
  assumes a: "0 < a" and d: "distinct (map oid ords)" and ne: "ords \<noteq> []"
  shows "sum_list (map (\<lambda>ord. fin_new (fin_allocate a ords) ord - paid ord) ords) = a"
proof -
  let ?P = "pendingOrders ords"
  let ?U = "snd (fin_loop a ?P)"
  let ?r = "fst (fin_loop a ?P)"
  from fin_allocate_master[OF a d ne] obtain t where t: "t \<in> set ords"
    and new: "\<And>ord. ord \<in> set ords \<Longrightarrow>
       fin_new (fin_allocate a ords) ord = fin_new ?U ord + (if ord = t then ?r else 0)"
    by blast
  have dO: "distinct ords" using d by (simp add: distinct_map)
  have "sum_list (map (\<lambda>ord. fin_new (fin_allocate a ords) ord - paid ord) ords)
      = sum_list (map (\<lambda>ord. (fin_new ?U ord - paid ord) + (if ord = t then ?r else 0)) ords)"
    by (rule arg_cong[where f = sum_list], rule map_cong) (simp_all add: new)
  also have "\<dots> = sum_list (map (\<lambda>ord. fin_new ?U ord - paid ord) ords)
                  + sum_list (map (\<lambda>ord. if ord = t then ?r else 0) ords)"
    by (rule sum_list_addf)
  also have "sum_list (map (\<lambda>ord. fin_new ?U ord - paid ord) ords)
           = sum_list (map (\<lambda>ord. fin_new ?U ord - paid ord) ?P)"
    using d fin_loop_keys_subset by (rule sum_pending)
  also have "\<dots> = a - ?r"
    using distinct_pendingOrders[OF d] by (rule fin_loop_sum)
  also have "sum_list (map (\<lambda>ord. if ord = t then ?r else 0) ords) = ?r"
    using dO t by (rule sum_list_single)
  finally show ?thesis by simp
qed


lemma accepted_cases:
  "\<not> rejects amount \<Longrightarrow> (\<exists>a. 0 < a \<and> amount = Fin a) \<or> amount = PosInf"
  by (cases amount) (auto simp: rejects_def)

text \<open>The allocation of an infinite amount.\<close>

lemma inf_allocate_master:
  assumes d: "distinct (map oid ords)" and ne: "ords \<noteq> []"
  shows "\<exists>t\<in>set ords. (pendingOrders ords \<noteq> [] \<longrightarrow> t \<in> set (pendingOrders ords)) \<and>
           (\<forall>ord\<in>set ords. new_amount_paid (allocate_payment PosInf ords) ord =
              (if ord = t then PosInf
               else if ord \<in> set (pendingOrders ords) then Fin (total_amount ord)
               else Fin (paid ord)))"
proof (cases "pendingOrders ords = []")
  case True
  obtain m rest where srt: "sort_key (\<lambda>ord. - created_at ord) ords = m # rest"
    using ne by (cases "sort_key (\<lambda>ord. - created_at ord) ords") (auto dest: arg_cong[where f = set])
  then have m: "m \<in> set ords" by (simp add: mostRecent)
  have F: "allocate_payment PosInf ords = [(oid m, PosInf)]"
    using True by (simp add: allocate_payment_PosInf srt)
  have "new_amount_paid (allocate_payment PosInf ords) ord = (if ord = m then PosInf else Fin (paid ord))"
    if "ord \<in> set ords" for ord
    using oid_eq_iff[OF d that m] by (auto simp: F new_amount_paid_def)
  with m True show ?thesis
    by (intro bexI[of _ m]) auto
next
  case False
  let ?P = "pendingOrders ords"
  let ?U = "map (\<lambda>ord. (oid ord, Fin (total_amount ord))) ?P"
  have sub: "set ?P \<subseteq> set ords" by auto
  have lastP: "last ?P \<in> set ?P" using False by (rule last_in_set)
  have dU: "distinct (map fst ?U)"
    using distinct_pendingOrders[OF d] by (simp add: comp_def)
  have neU: "?U \<noteq> []" using False by simp
  have lastU: "fst (last ?U) = oid (last ?P)"
    using False by (simp add: last_map)
  have F: "allocate_payment PosInf ords = butlast ?U @ [(fst (last ?U), PosInf)]"
    using False by (simp add: allocate_payment_PosInf map_butlast last_map)
  have bump: "map_of (allocate_payment PosInf ords) k =
      (if k = oid (last ?P) then Some PosInf else map_of ?U k)" for k
    using map_of_bump_last[OF dU neU, of PosInf k] unfolding F lastU .
  have inP: "map_of ?U (oid x) = Some (Fin (total_amount x))" if "x \<in> set ?P" for x
    using that dU by (subst map_of_eq_Some_iff) auto
  have outP: "map_of ?U (oid x) = None" if "x \<in> set ords" "x \<notin> set ?P" for x
  proof -
    have "oid x \<notin> oid ` set ?P"
    proof
      assume "oid x \<in> oid ` set ?P"
      then obtain p where p: "p \<in> set ?P" "oid x = oid p" by auto
      with sub have "p \<in> set ords" by blast
      with that p oid_eq_iff[OF d, of x p] show False by auto
    qed
    then show ?thesis by (simp add: map_of_eq_None_iff image_image)
  qed
  have "new_amount_paid (allocate_payment PosInf ords) ord =
          (if ord = last ?P then PosInf
           else if ord \<in> set ?P then Fin (total_amount ord) else Fin (paid ord))"
    if "ord \<in> set ords" for ord
  proof (cases "ord = last ?P")
    case True
    then show ?thesis by (simp add: new_amount_paid_def bump)
  next
    case neq: False
    with that lastP sub have "oid ord \<noteq> oid (last ?P)"
      using oid_eq_iff[OF d, of ord "last ?P"] by blast
    then show ?thesis
      using neq inP[of ord] outP[of ord] that
      by (cases "ord \<in> set ?P") (simp_all add: new_amount_paid_def bump)
  qed
  with lastP sub False show ?thesis
    by (intro bexI[of _ "last ?P"]) auto
qed

text \<open>
  C1 (payment conservation): for a group of orders that is not empty, whose orders have
  distinct identifiers, and an amount that passes the validation, the differences between
  the amount each order holds after the updates and the amount it held before add up to
  the amount entered.
\<close>

theorem payment_conservation:
  assumes "ords \<noteq> []" and "distinct (map oid ords)" and "\<not> rejects amount"
  shows "js_sum (map (\<lambda>ord. js_sub (new_amount_paid (allocate_payment amount ords) ord)
                               (Fin (paid ord))) ords) = amount"
proof -
  from accepted_cases[OF assms(3)] show ?thesis
  proof (elim disjE exE conjE)
    fix a assume a: "0 < a" "amount = Fin a"
    have "js_sum (map (\<lambda>ord. js_sub (new_amount_paid (allocate_payment (Fin a) ords) ord)
                               (Fin (paid ord))) ords)
        = Fin (sum_list (map (\<lambda>ord. fin_new (fin_allocate a ords) ord - paid ord) ords))"
      by (rule js_sum_Fin) (simp add: allocate_payment_Fin new_amount_paid_finite)
    also have "\<dots> = Fin a"
      using fin_allocate_conservation[OF a(1) assms(2,1)] by simp
    finally show ?thesis by (simp add: a(2))
  next
    assume inf: "amount = PosInf"
    let ?d = "\<lambda>ord. js_sub (new_amount_paid (allocate_payment PosInf ords) ord) (Fin (paid ord))"
    from inf_allocate_master[OF assms(2,1)] obtain t where t: "t \<in> set ords"
      and new: "\<And>ord. ord \<in> set ords \<Longrightarrow> new_amount_paid (allocate_payment PosInf ords) ord =
              (if ord = t then PosInf
               else if ord \<in> set (pendingOrders ords) then Fin (total_amount ord)
               else Fin (paid ord))"
      by blast
    have shape: "x = PosInf \<or> (\<exists>q. x = Fin q)" if "x \<in> set (map ?d ords)" for x
    proof -
      from that obtain ord where ord: "ord \<in> set ords" "x = ?d ord" by auto
      show ?thesis
        unfolding ord(2) new[OF ord(1)] by simp
    qed
    have "?d t = PosInf" using new[OF t] by simp
    with t have "PosInf \<in> set (map ?d ords)" by force
    with js_sum_no_loss[of "map ?d ords", OF shape] show ?thesis
      by (simp add: inf)
  qed
qed


theorem payment_conservation_witness:
  "[example_order1, example_order2] \<noteq> [] \<and>
   distinct (map oid [example_order1, example_order2]) \<and> \<not> rejects (Fin 120) \<and>
   js_sum (map (\<lambda>ord. js_sub
       (new_amount_paid (allocate_payment (Fin 120) [example_order1, example_order2]) ord)
       (Fin (paid ord))) [example_order1, example_order2]) = Fin 120"
  using payment_conservation[of "[example_order1, example_order2]" "Fin 120"]
  by (simp add: example_order1_def example_order2_def rejects_def)

lemma not_pending_fresh:
  assumes d: "distinct (map oid ords)" and mem: "ord \<in> set ords"
    and np: "ord \<notin> set (pendingOrders ords)"
  shows "oid ord \<notin> oid ` set (pendingOrders ords)"
proof
  assume "oid ord \<in> oid ` set (pendingOrders ords)"
  then obtain p where p: "p \<in> set (pendingOrders ords)" "oid ord = oid p" by auto
  then have "p \<in> set ords" by simp
  with mem p np oid_eq_iff[OF d, of ord p] show False by auto
qed

lemma fin_new_loop:
  assumes d: "distinct (map oid ords)" and mem: "ord \<in> set ords"
  shows "paid ord \<le> fin_new (snd (fin_loop a (pendingOrders ords))) ord \<and>
         (ord \<in> set (pendingOrders ords) \<longrightarrow>
            fin_new (snd (fin_loop a (pendingOrders ords))) ord \<le> total_amount ord) \<and>
         (ord \<notin> set (pendingOrders ords) \<longrightarrow>
            fin_new (snd (fin_loop a (pendingOrders ords))) ord = paid ord)"
proof (cases "ord \<in> set (pendingOrders ords)")
  case True
  with fin_loop_bounds[OF distinct_pendingOrders[OF d] pendingOrders_nonneg True, of a]
  show ?thesis by simp
next
  case False
  from not_pending_fresh[OF d mem False] fin_loop_keys_subset[of a "pendingOrders ords"]
  have "oid ord \<notin> fst ` set (snd (fin_loop a (pendingOrders ords)))" by blast
  then show ?thesis using False by (simp add: fin_new_fresh)
qed

lemma js_le_Fin [simp]: "js_le (Fin a) (Fin b) = (a \<le> b)" "js_le (Fin a) PosInf"
  by simp_all

text \<open>
  C4 (monotonicity): after a payment of an accepted amount no order of the group holds
  less than it held before.
\<close>

theorem amount_paid_monotone:
  assumes "distinct (map oid ords)" and "\<not> rejects amount" and "ord \<in> set ords"
  shows "js_le (Fin (paid ord)) (new_amount_paid (allocate_payment amount ords) ord)"
proof -
  have ne: "ords \<noteq> []" using assms(3) by auto
  from accepted_cases[OF assms(2)] show ?thesis
  proof (elim disjE exE conjE)
    fix a assume a: "0 < a" "amount = Fin a"
    from fin_allocate_master[OF a(1) assms(1) ne] assms(3) obtain t where
      new: "fin_new (fin_allocate a ords) ord =
              fin_new (snd (fin_loop a (pendingOrders ords))) ord
                + (if ord = t then fst (fin_loop a (pendingOrders ords)) else 0)"
      by blast
    have "0 \<le> fst (fin_loop a (pendingOrders ords))"
      using a(1) by (intro fin_loop_nonneg) simp
    then have "fin_new (snd (fin_loop a (pendingOrders ords))) ord \<le> fin_new (fin_allocate a ords) ord"
      unfolding new by simp
    with fin_new_loop[OF assms(1,3), of a] show ?thesis
      by (simp add: a(2) allocate_payment_Fin new_amount_paid_finite)
  next
    assume inf: "amount = PosInf"
    from inf_allocate_master[OF assms(1) ne] assms(3) obtain t where
      "new_amount_paid (allocate_payment PosInf ords) ord =
         (if ord = t then PosInf
          else if ord \<in> set (pendingOrders ords) then Fin (total_amount ord) else Fin (paid ord))"
      by blast
    then show ?thesis by (simp add: inf)
  qed
qed

theorem amount_paid_monotone_witness:
  "distinct (map oid [example_order2, example_order1]) \<and> \<not> rejects (Fin 120) \<and>
   example_order2 \<in> set [example_order2, example_order1] \<and>
   js_le (Fin (paid example_order2))
     (new_amount_paid (allocate_payment (Fin 120) [example_order2, example_order1]) example_order2)"
  using amount_paid_monotone[of "[example_order2, example_order1]" "Fin 120" example_order2]
  by (simp add: example_order1_def example_order2_def rejects_def)

lemma map_fst_bump_last:
  "U \<noteq> [] \<Longrightarrow> map fst (butlast U @ [(fst (last U), v)]) = map fst U"
  by (induction U rule: rev_induct) simp_all

lemma allocate_keys:
  assumes acc: "\<not> rejects amount" and P: "pendingOrders ords \<noteq> []"
  shows "fst ` set (allocate_payment amount ords) \<subseteq> oid ` set (pendingOrders ords)"
proof -
  from accepted_cases[OF acc] show ?thesis
  proof (elim disjE exE conjE)
    fix a assume a: "0 < a" "amount = Fin a"
    obtain r U where loop: "fin_loop a (pendingOrders ords) = (r, U)"
      by (cases "fin_loop a (pendingOrders ords)")
    have U: "U \<noteq> []"
      using fin_loop_empty_iff[of a "pendingOrders ords"] a(1) P loop by simp
    have "map fst (fin_allocate a ords) = map fst U"
      using U by (simp add: fin_allocate_def loop map_fst_bump_last del: map_append)
    then have "fst ` set (fin_allocate a ords) = fst ` set U"
      by (metis set_map)
    moreover have "fst ` set (finite_updates (fin_allocate a ords)) = fst ` set (fin_allocate a ords)"
      by (force simp: finite_updates_def)
    ultimately show ?thesis
      using fin_loop_keys_subset[of a "pendingOrders ords"] loop
      by (simp add: a(2) allocate_payment_Fin)
  next
    assume inf: "amount = PosInf"
    have "set (butlast (pendingOrders ords)) \<subseteq> set (pendingOrders ords)"
      by (auto dest: in_set_butlastD)
    moreover have "last (pendingOrders ords) \<in> set (pendingOrders ords)"
      using P by (rule last_in_set)
    ultimately show ?thesis
      using P unfolding inf allocate_payment_PosInf by (auto simp del: set_pendingOrders)
  qed
qed

text \<open>
  C10 (frame): when some order of the group has a positive outstanding balance, an order
  whose outstanding balance is zero or negative receives no update and keeps the amount
  it held, also when the amount entered exceeds what is outstanding.
\<close>

theorem payment_frame:
  assumes "distinct (map oid ords)" and "\<not> rejects amount"
    and "\<exists>x\<in>set ords. 0 < outstanding x"
    and "ord \<in> set ords" and "outstanding ord \<le> 0"
  shows "oid ord \<notin> fst ` set (allocate_payment amount ords) \<and>
         new_amount_paid (allocate_payment amount ords) ord = Fin (paid ord)"
proof -
  from assms(3) have P: "pendingOrders ords \<noteq> []"
    by (auto simp flip: set_empty)
  from assms(5) have "ord \<notin> set (pendingOrders ords)" by simp
  from not_pending_fresh[OF assms(1,4) this] allocate_keys[OF assms(2) P]
  have fresh: "oid ord \<notin> fst ` set (allocate_payment amount ords)" by blast
  then have "map_of (allocate_payment amount ords) (oid ord) = None"
    by (simp add: map_of_eq_None_iff)
  with fresh show ?thesis by (simp add: new_amount_paid_def)
qed

theorem payment_frame_witness:
  "distinct (map oid [example_paid_order, example_order1]) \<and> \<not> rejects (Fin 200) \<and>
   (\<exists>x\<in>set [example_paid_order, example_order1]. 0 < outstanding x) \<and>
   example_paid_order \<in> set [example_paid_order, example_order1] \<and>
   outstanding example_paid_order \<le> 0 \<and>
   oid example_paid_order \<notin> fst ` set (allocate_payment (Fin 200) [example_paid_order, example_order1]) \<and>
   new_amount_paid (allocate_payment (Fin 200) [example_paid_order, example_order1]) example_paid_order
     = Fin (paid example_paid_order)"
  using payment_frame[of "[example_paid_order, example_order1]" "Fin 200" example_paid_order]
  by (simp add: example_order1_def example_paid_order_def rejects_def paid_def)

lemma js_gt_Fin [simp]: "js_gt (Fin a) (Fin b) = (b < a)" "js_gt PosInf (Fin b)"
  by simp_all

lemma js_add_simps [simp]:
  "js_add (Fin a) (Fin b) = Fin (a + b)"
  "js_add (Fin a) PosInf = PosInf"
  by simp_all

lemma finite_updates_totals:
  "finite_updates (map (\<lambda>ord. (oid ord, total_amount ord)) os) =
     map (\<lambda>ord. (oid ord, Fin (total_amount ord))) os"
  by (simp add: finite_updates_def)

text \<open>
  C3 (overpayment leftover): if the orders with a positive outstanding balance are all
  settled and a remainder of the payment is still positive, every such order is updated
  to its total and the remainder is added to the last of them; if no order has a positive
  outstanding balance, the whole amount is added to an order of the group created latest.
\<close>

theorem overpayment_leftover:
  assumes "\<not> rejects amount"
  shows "(pendingOrders ords \<noteq> [] \<and> js_gt (fst (payment_loop amount (pendingOrders ords) [])) (Fin 0) \<longrightarrow>
            fst (payment_loop amount (pendingOrders ords) [])
              = js_sub amount (Fin (sum_list (map outstanding (pendingOrders ords)))) \<and>
            snd (payment_loop amount (pendingOrders ords) [])
              = map (\<lambda>ord. (oid ord, Fin (total_amount ord))) (pendingOrders ords) \<and>
            allocate_payment amount ords
              = map (\<lambda>ord. (oid ord, Fin (total_amount ord))) (butlast (pendingOrders ords))
                @ [(oid (last (pendingOrders ords)),
                    js_add (Fin (total_amount (last (pendingOrders ords))))
                           (fst (payment_loop amount (pendingOrders ords) [])))]) \<and>
         (pendingOrders ords = [] \<and> ords \<noteq> [] \<longrightarrow>
            (\<exists>m\<in>set ords. (\<forall>x\<in>set ords. created_at x \<le> created_at m) \<and>
               allocate_payment amount ords = [(oid m, js_add (Fin (paid m)) amount)]))"
proof (rule conjI; rule impI; elim conjE)
  let ?P = "pendingOrders ords"
  assume P: "?P \<noteq> []" and pos: "js_gt (fst (payment_loop amount ?P [])) (Fin 0)"
  let ?goal = "fst (payment_loop amount ?P []) = js_sub amount (Fin (sum_list (map outstanding ?P))) \<and>
            snd (payment_loop amount ?P []) = map (\<lambda>ord. (oid ord, Fin (total_amount ord))) ?P \<and>
            allocate_payment amount ords
              = map (\<lambda>ord. (oid ord, Fin (total_amount ord))) (butlast ?P)
                @ [(oid (last ?P), js_add (Fin (total_amount (last ?P))) (fst (payment_loop amount ?P [])))]"
  from accepted_cases[OF assms] show ?goal
  proof (elim disjE exE conjE)
    fix a assume a: "0 < a" "amount = Fin a"
    obtain r U where loop: "fin_loop a ?P = (r, U)"
      by (cases "fin_loop a ?P")
    from pos have r: "0 < r"
      by (simp add: a(2) payment_loop_Fin loop)
    from fin_loop_pos[of a ?P] r loop
    have U: "U = map (\<lambda>ord. (oid ord, total_amount ord)) ?P"
      and r': "r = a - sum_list (map outstanding ?P)"
      by simp_all
    have neU: "U \<noteq> []" using P U by simp
    have F: "fin_allocate a ords = butlast U @ [(fst (last U), snd (last U) + r)]"
      using r neU by (simp add: fin_allocate_def loop)
    have "finite_updates (fin_allocate a ords) =
            map (\<lambda>ord. (oid ord, Fin (total_amount ord))) (butlast ?P)
              @ [(oid (last ?P), Fin (total_amount (last ?P) + r))]"
      unfolding F using P
      by (simp add: U map_butlast[symmetric] last_map finite_updates_totals)
    then show ?goal
      using r' by (simp add: a(2) payment_loop_Fin loop allocate_payment_Fin U finite_updates_totals)
  next
    assume inf: "amount = PosInf"
    show ?goal
      using P by (simp add: inf payment_loop_PosInf allocate_payment_PosInf)
  qed
next
  assume P: "pendingOrders ords = []" and ne: "ords \<noteq> []"
  obtain m rest where srt: "sort_key (\<lambda>ord. - created_at ord) ords = m # rest"
    using ne by (cases "sort_key (\<lambda>ord. - created_at ord) ords") (auto dest: arg_cong[where f = set])
  from mostRecent[OF srt] have m: "m \<in> set ords" "\<forall>x\<in>set ords. created_at x \<le> created_at m"
    by simp_all
  from accepted_cases[OF assms]
  have "allocate_payment amount ords = [(oid m, js_add (Fin (paid m)) amount)]"
  proof (elim disjE exE conjE)
    fix a assume a: "0 < a" "amount = Fin a"
    then show ?thesis
      by (simp add: allocate_payment_Fin fin_allocate_def P srt)
  next
    assume "amount = PosInf"
    then show ?thesis
      by (simp add: allocate_payment_PosInf P srt)
  qed
  with m show "\<exists>m\<in>set ords. (\<forall>x\<in>set ords. created_at x \<le> created_at m) \<and>
               allocate_payment amount ords = [(oid m, js_add (Fin (paid m)) amount)]"
    by blast
qed

theorem overpayment_leftover_witness:
  "\<not> rejects (Fin 200) \<and> pendingOrders [example_order1, example_order2] \<noteq> [] \<and>
   js_gt (fst (payment_loop (Fin 200) (pendingOrders [example_order1, example_order2]) [])) (Fin 0) \<and>
   allocate_payment (Fin 200) [example_order1, example_order2]
     = [(''order1'', Fin 100), (''order2'', Fin 100)] \<and>
   \<not> rejects (Fin 10) \<and> pendingOrders [example_paid_order] = [] \<and> [example_paid_order] \<noteq> [] \<and>
   allocate_payment (Fin 10) [example_paid_order] = [(''order3'', Fin 40)]"
  using overpayment_leftover[of "Fin 200" "[example_order1, example_order2]"]
    overpayment_leftover[of "Fin 10" "[example_paid_order]"]
  by (simp add: example_order1_def example_order2_def example_paid_order_def rejects_def
      pendingOrders_eq paid_def Let_def)


lemma fin_loop_exhausted: "r \<le> 0 \<Longrightarrow> fin_loop r os = (r, [])"
  by (cases os) simp_all

lemma spec_allocate_keys: "map fst (spec_allocate remaining os) = map oid os"
  by (induction os arbitrary: remaining) (simp_all add: Let_def)

lemma spec_allocate_Fin:
  "0 \<le> r \<Longrightarrow> \<forall>x\<in>set os. 0 \<le> outstanding x \<Longrightarrow> distinct (map oid os) \<Longrightarrow> ord \<in> set os \<Longrightarrow>
   new_amount_paid (spec_allocate (Fin r) os) ord = Fin (fin_new (snd (fin_loop r os)) ord)"
proof (induction os arbitrary: r)
  case Nil
  then show ?case by simp
next
  case (Cons x rest)
  let ?p = "min r (outstanding x)"
  have p: "0 \<le> r - ?p" using Cons.prems(1) by simp
  have spec: "spec_allocate (Fin r) (x # rest) =
      (oid x, Fin (paid x + ?p)) # spec_allocate (Fin (r - ?p)) rest"
    by (simp add: Let_def)
  show ?case
  proof (cases "ord = x")
    case True
    show ?thesis
    proof (cases "r \<le> 0")
      case True
      with Cons.prems(1,2) have "r = 0" "?p = 0" by auto
      with \<open>ord = x\<close> show ?thesis
        unfolding spec by (simp add: new_amount_paid_def fin_new_def)
    next
      case False
      with \<open>ord = x\<close> show ?thesis
        unfolding spec by (simp add: new_amount_paid_def fin_new_def Let_def)
    qed
  next
    case neq: False
    with Cons.prems have mem: "ord \<in> set rest" by auto
    then have "oid ord \<in> oid ` set rest" by (rule imageI)
    with Cons.prems(3) have ids: "oid ord \<noteq> oid x" by auto
    have IH: "new_amount_paid (spec_allocate (Fin (r - ?p)) rest) ord
                = Fin (fin_new (snd (fin_loop (r - ?p) rest)) ord)"
      using p Cons.prems mem by (intro Cons.IH) simp_all
    have step: "new_amount_paid (spec_allocate (Fin r) (x # rest)) ord
                = new_amount_paid (spec_allocate (Fin (r - ?p)) rest) ord"
      unfolding spec using ids by (simp add: new_amount_paid_def)
    show ?thesis
    proof (cases "r \<le> 0")
      case True
      with Cons.prems(1,2) have "r = 0" "?p = 0" by auto
      then show ?thesis
        unfolding step IH by (simp add: fin_loop_exhausted)
    next
      case False
      then show ?thesis
        unfolding step IH using ids by (simp add: Let_def fin_new_def)
    qed
  qed
qed

lemma spec_remaining_Fin:
  "0 \<le> r \<Longrightarrow> \<forall>x\<in>set os. 0 \<le> outstanding x \<Longrightarrow>
   spec_remaining (Fin r) os = Fin (fst (fin_loop r os))"
proof (induction os arbitrary: r)
  case Nil
  show ?case by simp
next
  case (Cons x rest)
  have "spec_remaining (Fin (r - min r (outstanding x))) rest
          = Fin (fst (fin_loop (r - min r (outstanding x)) rest))"
    using Cons.prems by (intro Cons.IH) simp_all
  moreover have "r \<le> 0 \<Longrightarrow> r - min r (outstanding x) = r"
    using Cons.prems by auto
  ultimately show ?case
    by (auto simp: Let_def fin_loop_exhausted)
qed

lemma spec_PosInf:
  "spec_allocate PosInf os = map (\<lambda>ord. (oid ord, Fin (total_amount ord))) os"
  "spec_remaining PosInf os = PosInf"
  by (induction os) (simp_all add: Let_def)

lemma new_amount_paid_fresh:
  "oid ord \<notin> fst ` set ups \<Longrightarrow> new_amount_paid ups ord = Fin (paid ord)"
  by (simp add: new_amount_paid_def map_of_eq_None_iff[THEN iffD2])

lemma finite_updates_keys: "fst ` set (finite_updates U) = fst ` set U"
  by (force simp: finite_updates_def)

text \<open>
  C2 (oldest first): the orders considered are exactly those with a positive outstanding
  balance, in ascending order of creation; the loop leaves every order of the group with
  the amount that the specification's procedure gives it (apply the minimum of the
  remaining payment and the outstanding balance, deduct it, go on), with the same
  remainder; and when no remainder is left, the updates of the loop are the result.
\<close>

theorem oldest_first_allocation:
  assumes "\<not> rejects amount" and "distinct (map oid ords)"
  shows "mset (pendingOrders ords) = filter_mset (\<lambda>ord. 0 < outstanding ord) (mset ords) \<and>
         sorted (map created_at (pendingOrders ords)) \<and>
         fst (payment_loop amount (pendingOrders ords) []) = spec_remaining amount (pendingOrders ords) \<and>
         (\<forall>ord\<in>set ords.
            new_amount_paid (snd (payment_loop amount (pendingOrders ords) [])) ord
              = new_amount_paid (spec_allocate amount (pendingOrders ords)) ord) \<and>
         (\<not> js_gt (spec_remaining amount (pendingOrders ords)) (Fin 0) \<longrightarrow>
            allocate_payment amount ords = snd (payment_loop amount (pendingOrders ords) []))"
proof -
  let ?P = "pendingOrders ords"
  have sel: "mset ?P = filter_mset (\<lambda>ord. 0 < outstanding ord) (mset ords)"
    by (simp add: pendingOrders_eq)
  have srt: "sorted (map created_at ?P)"
    by (simp add: pendingOrders_eq)
  have dP: "distinct (map oid ?P)"
    using assms(2) by (rule distinct_pendingOrders)
  have rem: "fst (payment_loop amount ?P []) = spec_remaining amount ?P"
  proof -
    from accepted_cases[OF assms(1)] show ?thesis
    proof (elim disjE exE conjE)
      fix a assume a: "0 < a" "amount = Fin a"
      have "spec_remaining (Fin a) ?P = Fin (fst (fin_loop a ?P))"
        using a(1) by (intro spec_remaining_Fin pendingOrders_nonneg) simp
      then show ?thesis by (simp add: a(2) payment_loop_Fin)
    next
      assume "amount = PosInf"
      then show ?thesis by (simp add: payment_loop_PosInf spec_PosInf)
    qed
  qed
  have same: "new_amount_paid (snd (payment_loop amount ?P [])) ord
                = new_amount_paid (spec_allocate amount ?P) ord" if mem: "ord \<in> set ords" for ord
  proof (cases "ord \<in> set ?P")
    case True
    from accepted_cases[OF assms(1)] show ?thesis
    proof (elim disjE exE conjE)
      fix a assume a: "0 < a" "amount = Fin a"
      have "new_amount_paid (spec_allocate (Fin a) ?P) ord = Fin (fin_new (snd (fin_loop a ?P)) ord)"
        using a(1) dP True by (intro spec_allocate_Fin pendingOrders_nonneg) simp_all
      then show ?thesis
        by (simp add: a(2) payment_loop_Fin new_amount_paid_finite)
    next
      assume "amount = PosInf"
      then show ?thesis by (simp add: payment_loop_PosInf spec_PosInf)
    qed
  next
    case False
    from not_pending_fresh[OF assms(2) mem False]
    have fresh: "oid ord \<notin> oid ` set ?P" .
    have "fst ` set (spec_allocate amount ?P) = oid ` set ?P"
      using spec_allocate_keys[of amount ?P] by (metis set_map)
    with fresh have spec: "new_amount_paid (spec_allocate amount ?P) ord = Fin (paid ord)"
      by (intro new_amount_paid_fresh) simp
    have "fst ` set (snd (payment_loop amount ?P [])) \<subseteq> oid ` set ?P"
    proof -
      from accepted_cases[OF assms(1)] show ?thesis
      proof (elim disjE exE conjE)
        fix a assume a: "0 < a" "amount = Fin a"
        show ?thesis
          unfolding a(2) payment_loop_Fin
          using fin_loop_keys_subset[of a ?P] by (simp add: finite_updates_keys)
      next
        assume inf: "amount = PosInf"
        show ?thesis
          unfolding inf payment_loop_PosInf by (simp add: image_image)
      qed
    qed
    with fresh have "new_amount_paid (snd (payment_loop amount ?P [])) ord = Fin (paid ord)"
      by (intro new_amount_paid_fresh) blast
    with spec show ?thesis by simp
  qed
  have fin: "allocate_payment amount ords = snd (payment_loop amount ?P [])"
    if "\<not> js_gt (spec_remaining amount ?P) (Fin 0)"
    using that unfolding rem[symmetric]
    by (simp add: allocate_payment_def split_beta)
  from sel srt rem same fin show ?thesis by blast
qed

theorem oldest_first_allocation_witness:
  "\<not> rejects (Fin 120) \<and> distinct (map oid [example_order2, example_order1]) \<and>
   pendingOrders [example_order2, example_order1] = [example_order1, example_order2] \<and>
   spec_allocate (Fin 120) [example_order1, example_order2]
     = [(''order1'', Fin 100), (''order2'', Fin 20)] \<and>
   \<not> js_gt (spec_remaining (Fin 120) (pendingOrders [example_order2, example_order1])) (Fin 0) \<and>
   allocate_payment (Fin 120) [example_order2, example_order1]
     = [(''order1'', Fin 100), (''order2'', Fin 20)]"
  using oldest_first_allocation[of "Fin 120" "[example_order2, example_order1]"]
  by (simp add: example_order1_def example_order2_def rejects_def pendingOrders_eq paid_def Let_def)

text \<open>
  C5, as the claim states it, fails on an infinite amount: \<open>Infinity\<close> is not
  \<open>NaN\<close> and is not \<open>\<le> 0\<close>, so it passes the validation, and once the overpayment
  is confirmed the updates are issued.
\<close>

theorem infinite_amount_counterexample:
  "handleSavePayment (Some example_summary) PosInf True
     = Saved [(''order1'', Fin 100), (''order2'', PosInf)]"
  by (simp add: handleSavePayment_def rejects_def example_summary_def allocate_payment_def
      pendingOrders_eq addLeftover_def example_order1_def example_order2_def paid_def Let_def)

text \<open>
  C5 (amended): with a summary open, the payment is refused with a validation error,
  whatever the confirmation dialog would answer and with no update, exactly when the
  parsed amount is \<open>NaN\<close>, minus infinity, zero or negative.
\<close>

theorem payment_validation:
  "(handleSavePayment (Some s) amount confirmed = ValidationError) =
     (amount = NaN \<or> amount = NegInf \<or> (\<exists>a. amount = Fin a \<and> a \<le> 0))"
  by (cases amount) (simp_all add: handleSavePayment_def rejects_def)

section \<open>Properties of dictionaries\<close>

lemma map_of_upsert:
  "map_of (upsert k fresh change kvs) k' =
     (if k' = k then Some (case map_of kvs k of None \<Rightarrow> fresh | Some v \<Rightarrow> change v)
      else map_of kvs k')"
  by (induction kvs) auto

lemma keys_upsert:
  "map fst (upsert k fresh change kvs) =
     (if k \<in> fst ` set kvs then map fst kvs else map fst kvs @ [k])"
proof (induction kvs)
  case Nil
  show ?case by simp
next
  case (Cons kv kvs)
  obtain k' v where kv: "kv = (k', v)" by (cases kv)
  show ?case
    using Cons.IH by (cases "k' = k") (simp_all add: kv)
qed

lemma distinct_upsert:
  "distinct (map fst kvs) \<Longrightarrow> distinct (map fst (upsert k fresh change kvs))"
  by (simp add: keys_upsert)

lemma distinct_collect: "distinct (map fst (collect key fresh change xs))"
  by (induction xs rule: rev_induct) (simp_all add: distinct_upsert)

lemma keys_collect: "fst ` set (collect key fresh change xs) = key ` set xs"
proof (induction xs rule: rev_induct)
  case Nil
  show ?case by simp
next
  case (snoc x xs)
  have "set (map fst (collect key fresh change (xs @ [x])))
      = insert (key x) (set (map fst (collect key fresh change xs)))"
    by (auto simp: keys_upsert)
  then show ?case using snoc.IH by auto
qed

lemma map_of_collect:
  "map_of (collect key fresh change xs) k =
     (case filter (\<lambda>x. key x = k) xs of
        [] \<Rightarrow> None
      | x # g \<Rightarrow> Some (foldl (\<lambda>v y. change y v) (fresh x) g))"
proof (induction xs arbitrary: k rule: rev_induct)
  case Nil
  show ?case by simp
next
  case (snoc y xs)
  show ?case
    by (cases "filter (\<lambda>x. key x = k) xs") (auto simp: map_of_upsert snoc.IH)
qed

lemma collect_entry:
  "(k, v) \<in> set (collect key fresh change xs) \<longleftrightarrow>
     (\<exists>x g. filter (\<lambda>x. key x = k) xs = x # g \<and> v = foldl (\<lambda>v y. change y v) (fresh x) g)"
proof -
  have "(k, v) \<in> set (collect key fresh change xs) \<longleftrightarrow> map_of (collect key fresh change xs) k = Some v"
    using distinct_collect[of key fresh change xs] by simp
  then show ?thesis
    by (auto simp: map_of_collect split: list.splits)
qed

section \<open>Stable sorting: permutation and order\<close>

lemma mset_insert_sorted: "mset (insert_sorted cmp x ys) = add_mset x (mset ys)"
  by (induction ys) simp_all

lemma mset_js_sort [simp]: "mset (js_sort cmp xs) = mset xs"
  by (induction xs) (simp_all add: js_sort_def mset_insert_sorted)

lemma set_js_sort [simp]: "set (js_sort cmp xs) = set xs"
  by (metis mset_js_sort set_mset_mset)

lemma length_js_sort [simp]: "length (js_sort cmp xs) = length xs"
  by (metis mset_js_sort size_mset)

lemma sorted_insert_sorted:
  assumes "consistent cmp" and "sorted_wrt (\<lambda>a b. cmp a b \<le> 0) ys"
  shows "sorted_wrt (\<lambda>a b. cmp a b \<le> 0) (insert_sorted cmp x ys)"
  using assms(2)
proof (induction ys)
  case Nil
  show ?case by simp
next
  case (Cons y ys)
  have tot: "\<And>a b. cmp a b \<le> 0 \<or> cmp b a \<le> 0"
    and tr: "\<And>a b c. cmp a b \<le> 0 \<Longrightarrow> cmp b c \<le> 0 \<Longrightarrow> cmp a c \<le> 0"
    using assms(1) unfolding consistent_def by blast+
  show ?case
  proof (cases "cmp x y \<le> 0")
    case True
    with Cons.prems show ?thesis by (auto intro: tr)
  next
    case False
    with tot[of x y] have "cmp y x \<le> 0" by simp
    moreover have "set (insert_sorted cmp x ys) = insert x (set ys)"
      by (metis mset_insert_sorted set_mset_add_mset_insert set_mset_mset)
    ultimately show ?thesis
      using False Cons by auto
  qed
qed

lemma sorted_js_sort:
  "consistent cmp \<Longrightarrow> sorted_wrt (\<lambda>a b. cmp a b \<le> 0) (js_sort cmp xs)"
  by (induction xs) (simp_all add: js_sort_def sorted_insert_sorted)

section \<open>Daily summaries and the confirmation of overpayments\<close>

lemma foldl_addToSummary:
  "foldl (\<lambda>v y. addToSummary y v) s g =
     s\<lparr>ds_orders := ds_orders s @ g,
       ds_totalAmount := ds_totalAmount s + sum_list (map total_amount g),
       ds_totalPaid := ds_totalPaid s + sum_list (map paid g),
       ds_allItems := ds_allItems s @ concat (map items g)\<rparr>"
  by (induction g arbitrary: s) (simp_all add: addToSummary_def algebra_simps)

lemma groupedByDate_entry:
  assumes "(k, v) \<in> set (groupedByDate ords)"
  shows "v = \<lparr>ds_date = k,
              ds_orders = filter (\<lambda>ord. date ord = k) ords,
              ds_totalAmount = sum_list (map total_amount (filter (\<lambda>ord. date ord = k) ords)),
              ds_totalPaid = sum_list (map paid (filter (\<lambda>ord. date ord = k) ords)),
              ds_balance = 0,
              ds_allItems = concat (map items (filter (\<lambda>ord. date ord = k) ords))\<rparr>"
proof -
  from assms obtain x g where g: "filter (\<lambda>ord. date ord = k) ords = x # g"
    and v: "v = foldl (\<lambda>v y. addToSummary y v) (addToSummary x (emptySummary (date x))) g"
    unfolding groupedByDate_def collect_entry by blast
  have "x \<in> set (filter (\<lambda>ord. date ord = k) ords)" by (simp add: g)
  then have "date x = k" by simp
  then show ?thesis
    unfolding v g foldl_addToSummary by (simp add: addToSummary_def emptySummary_def)
qed

lemma dailySummaries_member:
  assumes "s \<in> set (dailySummaries ords)"
  shows "ds_orders s = filter (\<lambda>ord. date ord = ds_date s) ords \<and>
         ds_balance s = sum_list (map total_amount (ds_orders s)) - sum_list (map paid (ds_orders s))"
proof -
  from assms obtain k v where "(k, v) \<in> set (groupedByDate ords)"
    and s: "s = v\<lparr>ds_balance := ds_totalAmount v - ds_totalPaid v\<rparr>"
    by (auto simp: dailySummaries_def)
  from groupedByDate_entry[OF this(1)] show ?thesis
    unfolding s by simp
qed

lemma foldl_plus_sum_list:
  fixes f :: "'a \<Rightarrow> rat"
  shows "foldl (\<lambda>sum x. sum + f x) a xs = a + sum_list (map f xs)"
  by (induction xs arbitrary: a) simp_all




section \<open>Properties of the order aggregator\<close>

lemma foldl_mergeItem:
  "foldl (\<lambda>row item. mergeItem item row) x g =
     x\<lparr>quantity := quantity x + sum_list (map quantity g),
       total := total x + sum_list (map total g)\<rparr>"
  by (induction g arbitrary: x) (simp_all add: mergeItem_def algebra_simps)

lemma aggregatedItems_entry:
  "(k, row) \<in> set (aggregatedItems numberToString allItems) \<longleftrightarrow>
     (\<exists>x g. filter (\<lambda>item. itemKey numberToString item = k) allItems = x # g \<and>
            row = x\<lparr>quantity := sum_list (map quantity (x # g)),
                    total := sum_list (map total (x # g))\<rparr>)"
  unfolding aggregatedItems_def collect_entry foldl_mergeItem by simp

text \<open>Keys of equal-length identifiers and an injective number text tell items apart.\<close>

lemma itemKey_eq_iff:
  assumes "length (product_id i) = length (product_id j)"
    and "inj_on numberToString P" and "price i \<in> P" and "price j \<in> P"
  shows "itemKey numberToString i = itemKey numberToString j \<longleftrightarrow>
         product_id i = product_id j \<and> price i = price j"
  using assms by (auto simp: itemKey_def dest: inj_onD)

lemma single_row:
  assumes "distinct (map fst G)" and "(k0, v0) \<in> set G"
    and "\<And>k v. (k, v) \<in> set G \<Longrightarrow> P v \<longleftrightarrow> k = k0"
  shows "filter P (map snd G) = [v0]"
  using assms
proof (induction G)
  case Nil
  then show ?case by simp
next
  case (Cons kv G)
  obtain k v where kv: "kv = (k, v)" by (cases kv)
  show ?case
  proof (cases "k = k0")
    case True
    with Cons.prems(1,2) kv have v: "v = v0" and notin: "k0 \<notin> fst ` set G"
      by (auto simp: image_iff)
    have "\<not> P w" if "w \<in> snd ` set G" for w
    proof -
      from that obtain k' where mem: "(k', w) \<in> set G" by auto
      with notin have "k' \<noteq> k0" by (auto simp: image_iff)
      with Cons.prems(3)[of k' w] mem show ?thesis by simp
    qed
    then have "filter P (map snd G) = []"
      by (auto simp: filter_empty_conv)
    moreover have "P v" using Cons.prems(3)[of k v] True kv by simp
    ultimately show ?thesis by (simp add: kv v)
  next
    case False
    with Cons.prems(2) kv have mem: "(k0, v0) \<in> set G" by auto
    have "\<not> P v" using Cons.prems(3)[of k v] False kv by simp
    moreover have "filter P (map snd G) = [v0]"
      using Cons.prems(1) mem Cons.prems(3) by (intro Cons.IH) auto
    ultimately show ?thesis by (simp add: kv)
  qed
qed

lemma aggregatedItems_rows:
  assumes len: "\<And>i j. i \<in> set allItems \<Longrightarrow> j \<in> set allItems \<Longrightarrow>
                  length (product_id i) = length (product_id j)"
    and inj: "inj_on numberToString (price ` set allItems)"
  shows "filter (\<lambda>row. product_id row = pid \<and> price row = pr)
                (map snd (aggregatedItems numberToString allItems)) =
         (case filter (\<lambda>item. product_id item = pid \<and> price item = pr) allItems of
            [] \<Rightarrow> []
          | x # g \<Rightarrow> [x\<lparr>quantity := sum_list (map quantity (x # g)),
                        total := sum_list (map total (x # g))\<rparr>])"
proof -
  let ?G = "aggregatedItems numberToString allItems"
  let ?P = "\<lambda>row. product_id row = pid \<and> price row = pr"
  let ?same = "filter ?P allItems"
  have origin: "\<exists>x\<in>set allItems. itemKey numberToString x = k \<and>
                  product_id row = product_id x \<and> price row = price x"
    if "(k, row) \<in> set ?G" for k row
  proof -
    from that obtain x g where g: "filter (\<lambda>item. itemKey numberToString item = k) allItems = x # g"
      and row: "row = x\<lparr>quantity := sum_list (map quantity (x # g)),
                    total := sum_list (map total (x # g))\<rparr>"
      unfolding aggregatedItems_entry by blast
    have "x \<in> set (filter (\<lambda>item. itemKey numberToString item = k) allItems)"
      by (simp add: g)
    then show ?thesis by (auto simp: row)
  qed
  show ?thesis
  proof (cases ?same)
    case Nil
    have "\<not> ?P row" if "row \<in> set (map snd ?G)" for row
    proof
      assume P: "?P row"
      from that obtain k where "(k, row) \<in> set ?G" by auto
      from origin[OF this] P obtain x where "x \<in> set allItems" "?P x" by auto
      then have "x \<in> set ?same" by simp
      with Nil show False by simp
    qed
    then have "filter ?P (map snd ?G) = []"
      by (simp add: filter_empty_conv)
    with Nil show ?thesis by simp
  next
    case (Cons x g)
    have "x \<in> set ?same" by (simp add: Cons)
    then have x: "x \<in> set allItems" "product_id x = pid" "price x = pr" by simp_all
    let ?k0 = "itemKey numberToString x"
    have key: "itemKey numberToString i = ?k0 \<longleftrightarrow> ?P i" if "i \<in> set allItems" for i
    proof -
      have "price i \<in> price ` set allItems" "price x \<in> price ` set allItems"
        using that x(1) by simp_all
      from itemKey_eq_iff[OF len[OF that x(1)] inj this] show ?thesis
        by (simp add: x)
    qed
    have "filter (\<lambda>item. itemKey numberToString item = ?k0) allItems = ?same"
      by (rule filter_cong) (simp_all add: key)
    then have entry: "(?k0, x\<lparr>quantity := sum_list (map quantity (x # g)),
                    total := sum_list (map total (x # g))\<rparr>) \<in> set ?G"
      unfolding aggregatedItems_entry Cons by blast
    have only: "?P row \<longleftrightarrow> k = ?k0" if "(k, row) \<in> set ?G" for k row
    proof
      assume "?P row"
      with origin[OF that] obtain y where y: "y \<in> set allItems" "itemKey numberToString y = k" "?P y"
        by auto
      with key[OF y(1)] show "k = ?k0" by simp
    next
      assume "k = ?k0"
      with origin[OF that] obtain y where y: "y \<in> set allItems" "itemKey numberToString y = ?k0"
        "product_id row = product_id y" "price row = price y"
        by auto
      with key[OF y(1)] show "?P row" by simp
    qed
    have "distinct (map fst ?G)"
      unfolding aggregatedItems_def by (rule distinct_collect)
    from single_row[OF this entry only] show ?thesis
      by (simp add: Cons)
  qed
qed

lemma mergedItems_rows:
  assumes len: "\<And>i j. i \<in> set allItems \<Longrightarrow> j \<in> set allItems \<Longrightarrow>
                  length (product_id i) = length (product_id j)"
    and inj: "inj_on numberToString (price ` set allItems)"
  shows "filter (\<lambda>row. product_id row = pid \<and> price row = pr)
                (mergedItems localeCompare numberToString allItems) =
         (case filter (\<lambda>item. product_id item = pid \<and> price item = pr) allItems of
            [] \<Rightarrow> []
          | x # g \<Rightarrow> [x\<lparr>quantity := sum_list (map quantity (x # g)),
                        total := sum_list (map total (x # g))\<rparr>])"
proof -
  let ?P = "\<lambda>row. product_id row = pid \<and> price row = pr"
  let ?rows = "map snd (aggregatedItems numberToString allItems)"
  let ?merged = "mergedItems localeCompare numberToString allItems"
  have perm: "mset (filter ?P ?merged) = mset (filter ?P ?rows)"
    by (simp add: mergedItems_def)
  show ?thesis
  proof (cases "filter ?P allItems")
    case Nil
    with aggregatedItems_rows[OF len inj, of pid pr] have "filter ?P ?rows = []"
      by simp
    with perm have "filter ?P ?merged = []" by simp
    with Nil show ?thesis by simp
  next
    case (Cons x g)
    let ?row = "x\<lparr>quantity := sum_list (map quantity (x # g)),
                   total := sum_list (map total (x # g))\<rparr>"
    from Cons aggregatedItems_rows[OF len inj, of pid pr] have "filter ?P ?rows = [?row]"
      by simp
    with perm have "mset (filter ?P ?merged) = {#?row#}" by simp
    then have "filter ?P ?merged = [?row]" by (rule mset_single_iff[THEN iffD1])
    with Cons show ?thesis by simp
  qed
qed

lemma consistent_on_field:
  "consistent cmp \<Longrightarrow> consistent (\<lambda>a b. cmp (f a) (f b))"
  unfolding consistent_def by blast

lemma mergedItems_sorted:
  "consistent localeCompare \<Longrightarrow>
   sorted_wrt (\<lambda>a b. localeCompare (product_name a) (product_name b) \<le> 0)
     (mergedItems localeCompare numberToString allItems)"
  unfolding mergedItems_def
  by (rule sorted_js_sort[of "\<lambda>a b. localeCompare (product_name a) (product_name b)"])
     (rule consistent_on_field)


lemma foldl_addToCustomerSummary:
  "foldl (\<lambda>v y. addToCustomerSummary y v) s g =
     s\<lparr>cds_orderIds := cds_orderIds s @ map oid g,
       cds_allItems := cds_allItems s @ concat (map items g),
       cds_totalAmount := cds_totalAmount s + sum_list (map total_amount g),
       cds_amountPaid := cds_amountPaid s + sum_list (map paid g)\<rparr>"
  by (induction g arbitrary: s) (simp_all add: addToCustomerSummary_def algebra_simps)

lemma summaryMap_entry:
  assumes "(k, v) \<in> set (summaryMap ords)"
  shows "filter (\<lambda>ord. customer_id ord = k) ords \<noteq> [] \<and>
         v = \<lparr>cds_customerId = k,
              cds_customerName = customer_name (hd (filter (\<lambda>ord. customer_id ord = k) ords)),
              cds_orderIds = map oid (filter (\<lambda>ord. customer_id ord = k) ords),
              cds_allItems = concat (map items (filter (\<lambda>ord. customer_id ord = k) ords)),
              cds_totalAmount = sum_list (map total_amount (filter (\<lambda>ord. customer_id ord = k) ords)),
              cds_amountPaid = sum_list (map paid (filter (\<lambda>ord. customer_id ord = k) ords))\<rparr>"
proof -
  from assms obtain x g where g: "filter (\<lambda>ord. customer_id ord = k) ords = x # g"
    and v: "v = foldl (\<lambda>v y. addToCustomerSummary y v)
                  (addToCustomerSummary x (emptyCustomerSummary x)) g"
    unfolding summaryMap_def collect_entry by blast
  have "x \<in> set (filter (\<lambda>ord. customer_id ord = k) ords)" by (simp add: g)
  then have "customer_id x = k" by simp
  then show ?thesis
    unfolding v g foldl_addToCustomerSummary
    by (simp add: addToCustomerSummary_def emptyCustomerSummary_def)
qed

lemma customerDailySummaries_member:
  assumes "s \<in> set (customerDailySummaries localeCompare numberToString ords)"
  shows "cds_orderIds s = map oid (filter (\<lambda>ord. customer_id ord = cds_customerId s) ords) \<and>
         cds_totalAmount s = sum_list (map total_amount (filter (\<lambda>ord. customer_id ord = cds_customerId s) ords)) \<and>
         cds_amountPaid s = sum_list (map paid (filter (\<lambda>ord. customer_id ord = cds_customerId s) ords)) \<and>
         cds_allItems s = mergedItems localeCompare numberToString
            (concat (map items (filter (\<lambda>ord. customer_id ord = cds_customerId s) ords)))"
proof -
  from assms obtain k v where "(k, v) \<in> set (summaryMap ords)"
    and s: "s = v\<lparr>cds_allItems := mergedItems localeCompare numberToString (cds_allItems v)\<rparr>"
    by (auto simp: customerDailySummaries_def)
  from summaryMap_entry[OF this(1)] show ?thesis
    unfolding s by simp
qed

lemma customerDailySummaries_customers:
  "mset (map cds_customerId (customerDailySummaries localeCompare numberToString ords))
     = mset (map fst (summaryMap ords))"
proof -
  have "map cds_customerId (map (\<lambda>summary. summary\<lparr>cds_allItems :=
               mergedItems localeCompare numberToString (cds_allItems summary)\<rparr>)
            (map snd (summaryMap ords))) = map fst (summaryMap ords)"
    by (auto dest: summaryMap_entry)
  then show ?thesis
    unfolding customerDailySummaries_def mset_map mset_js_sort by (metis mset_map)
qed

lemma foldl_addToStatementDay:
  "foldl (\<lambda>v y. addToStatementDay y v) s g =
     s\<lparr>dss_totalAmount := dss_totalAmount s + sum_list (map total_amount g),
       dss_totalPaid := dss_totalPaid s + sum_list (map paid g),
       dss_allItems := dss_allItems s @ concat (map items g)\<rparr>"
  by (induction g arbitrary: s) (simp_all add: addToStatementDay_def algebra_simps)

lemma statementGroupedByDate_entry:
  assumes "(k, v) \<in> set (statementGroupedByDate ords)"
  shows "v = \<lparr>dss_date = k,
              dss_totalAmount = sum_list (map total_amount (filter (\<lambda>ord. date ord = k) ords)),
              dss_totalPaid = sum_list (map paid (filter (\<lambda>ord. date ord = k) ords)),
              dss_balance = 0,
              dss_allItems = concat (map items (filter (\<lambda>ord. date ord = k) ords))\<rparr>"
proof -
  from assms obtain x g where g: "filter (\<lambda>ord. date ord = k) ords = x # g"
    and v: "v = foldl (\<lambda>v y. addToStatementDay y v)
                  (addToStatementDay x (emptyStatementDay (date x))) g"
    unfolding statementGroupedByDate_def collect_entry by blast
  have "x \<in> set (filter (\<lambda>ord. date ord = k) ords)" by (simp add: g)
  then have "date x = k" by simp
  then show ?thesis
    unfolding v g foldl_addToStatementDay
    by (simp add: addToStatementDay_def emptyStatementDay_def)
qed

lemma getDailySummariesForStatement_member:
  assumes "s \<in> set (getDailySummariesForStatement localeCompare numberToString ords)"
  shows "dss_totalAmount s = sum_list (map total_amount (filter (\<lambda>ord. date ord = dss_date s) ords)) \<and>
         dss_totalPaid s = sum_list (map paid (filter (\<lambda>ord. date ord = dss_date s) ords)) \<and>
         dss_balance s = dss_totalAmount s - dss_totalPaid s \<and>
         dss_allItems s = mergedItems localeCompare numberToString
            (concat (map items (filter (\<lambda>ord. date ord = dss_date s) ords)))"
proof -
  from assms obtain k v where "(k, v) \<in> set (statementGroupedByDate ords)"
    and s: "s = v\<lparr>dss_allItems := mergedItems localeCompare numberToString (dss_allItems v),
                  dss_balance := dss_totalAmount v - dss_totalPaid v\<rparr>"
    by (auto simp: getDailySummariesForStatement_def)
  from statementGroupedByDate_entry[OF this(1)] show ?thesis
    unfolding s by simp
qed


lemma getDailySummariesForStatement_dates:
  "mset (map dss_date (getDailySummariesForStatement localeCompare numberToString ords))
     = mset (map fst (statementGroupedByDate ords))"
proof -
  have "map dss_date (map (\<lambda>summary. summary\<lparr>
                 dss_allItems := mergedItems localeCompare numberToString (dss_allItems summary),
                 dss_balance := dss_totalAmount summary - dss_totalPaid summary\<rparr>)
            (map snd (statementGroupedByDate ords))) = map fst (statementGroupedByDate ords)"
    by (auto dest: statementGroupedByDate_entry)
  then have "image_mset dss_date (mset (map (\<lambda>summary. summary\<lparr>
                 dss_allItems := mergedItems localeCompare numberToString (dss_allItems summary),
                 dss_balance := dss_totalAmount summary - dss_totalPaid summary\<rparr>)
            (map snd (statementGroupedByDate ords)))) = mset (map fst (statementGroupedByDate ords))"
    by (simp only: mset_map[symmetric])
  then show ?thesis
    unfolding getDailySummariesForStatement_def by (simp only: mset_map mset_js_sort)
qed

text \<open>
  C7 (aggregator): with a consistent name comparator, product identifiers of one length
  and a number text that tells the prices apart, every summary per customer (Orders
  page) and per date (statement) carries the sums of total and paid amounts of its
  orders; its rows are sorted by product name; and for every product and unit price it
  has exactly one row if the group has items of that product at that price, none
  otherwise: the first such item with the quantities and the line totals summed. Items
  of one product at different prices are therefore separate rows. Every customer of the
  list has exactly one summary per customer and every date of the list exactly one
  summary per date; the summaries per date come latest date first, the summaries per
  customer in the order of the names.
\<close>

theorem aggregator_merge:
  assumes "consistent localeCompare"
    and "\<forall>ord\<in>set ords. \<forall>ord'\<in>set ords. \<forall>i\<in>set (items ord). \<forall>j\<in>set (items ord').
           length (product_id i) = length (product_id j)"
    and "inj_on numberToString (price ` (\<Union>ord\<in>set ords. set (items ord)))"
  shows "(\<forall>s\<in>set (customerDailySummaries localeCompare numberToString ords).
            cds_orderIds s = map oid (filter (\<lambda>ord. customer_id ord = cds_customerId s) ords) \<and>
            cds_totalAmount s
              = sum_list (map total_amount (filter (\<lambda>ord. customer_id ord = cds_customerId s) ords)) \<and>
            cds_amountPaid s
              = sum_list (map paid (filter (\<lambda>ord. customer_id ord = cds_customerId s) ords)) \<and>
            sorted_wrt (\<lambda>a b. localeCompare (product_name a) (product_name b) \<le> 0) (cds_allItems s) \<and>
            (\<forall>pid pr.
               filter (\<lambda>row. product_id row = pid \<and> price row = pr) (cds_allItems s) =
                 (case filter (\<lambda>item. product_id item = pid \<and> price item = pr)
                         (concat (map items (filter (\<lambda>ord. customer_id ord = cds_customerId s) ords))) of
                    [] \<Rightarrow> []
                  | x # g \<Rightarrow> [x\<lparr>quantity := sum_list (map quantity (x # g)),
                                total := sum_list (map total (x # g))\<rparr>]))) \<and>
         distinct (map cds_customerId (customerDailySummaries localeCompare numberToString ords)) \<and>
         cds_customerId ` set (customerDailySummaries localeCompare numberToString ords)
           = customer_id ` set ords \<and>
         (\<forall>s\<in>set (getDailySummariesForStatement localeCompare numberToString ords).
            dss_totalAmount s = sum_list (map total_amount (filter (\<lambda>ord. date ord = dss_date s) ords)) \<and>
            dss_totalPaid s = sum_list (map paid (filter (\<lambda>ord. date ord = dss_date s) ords)) \<and>
            dss_balance s = dss_totalAmount s - dss_totalPaid s \<and>
            sorted_wrt (\<lambda>a b. localeCompare (product_name a) (product_name b) \<le> 0) (dss_allItems s) \<and>
            (\<forall>pid pr.
               filter (\<lambda>row. product_id row = pid \<and> price row = pr) (dss_allItems s) =
                 (case filter (\<lambda>item. product_id item = pid \<and> price item = pr)
                         (concat (map items (filter (\<lambda>ord. date ord = dss_date s) ords))) of
                    [] \<Rightarrow> []
                  | x # g \<Rightarrow> [x\<lparr>quantity := sum_list (map quantity (x # g)),
                                total := sum_list (map total (x # g))\<rparr>]))) \<and>
         distinct (map dss_date (getDailySummariesForStatement localeCompare numberToString ords)) \<and>
         dss_date ` set (getDailySummariesForStatement localeCompare numberToString ords)
           = date ` set ords \<and>
         sorted (map (\<lambda>s. - dss_date s)
                     (getDailySummariesForStatement localeCompare numberToString ords)) \<and>
         sorted_wrt (\<lambda>a b. localeCompare (cds_customerName a) (cds_customerName b) \<le> 0)
           (customerDailySummaries localeCompare numberToString ords)"
proof -
  have rows: "filter (\<lambda>row. product_id row = pid \<and> price row = pr)
                (mergedItems localeCompare numberToString (concat (map items (filter Q ords)))) =
         (case filter (\<lambda>item. product_id item = pid \<and> price item = pr)
                 (concat (map items (filter Q ords))) of
            [] \<Rightarrow> []
          | x # g \<Rightarrow> [x\<lparr>quantity := sum_list (map quantity (x # g)),
                        total := sum_list (map total (x # g))\<rparr>])" for Q pid pr
  proof (rule mergedItems_rows)
    fix i j
    assume "i \<in> set (concat (map items (filter Q ords)))"
      and "j \<in> set (concat (map items (filter Q ords)))"
    then show "length (product_id i) = length (product_id j)"
      using assms(2) by auto
  next
    show "inj_on numberToString (price ` set (concat (map items (filter Q ords))))"
      using assms(3) by (rule inj_on_subset) auto
  qed
  have sorted: "sorted_wrt (\<lambda>a b. localeCompare (product_name a) (product_name b) \<le> 0)
                  (mergedItems localeCompare numberToString allItems)" for allItems
    using assms(1) by (rule mergedItems_sorted)
  have orders: "\<forall>s\<in>set (customerDailySummaries localeCompare numberToString ords).
            cds_orderIds s = map oid (filter (\<lambda>ord. customer_id ord = cds_customerId s) ords) \<and>
            cds_totalAmount s
              = sum_list (map total_amount (filter (\<lambda>ord. customer_id ord = cds_customerId s) ords)) \<and>
            cds_amountPaid s
              = sum_list (map paid (filter (\<lambda>ord. customer_id ord = cds_customerId s) ords)) \<and>
            sorted_wrt (\<lambda>a b. localeCompare (product_name a) (product_name b) \<le> 0) (cds_allItems s) \<and>
            (\<forall>pid pr.
               filter (\<lambda>row. product_id row = pid \<and> price row = pr) (cds_allItems s) =
                 (case filter (\<lambda>item. product_id item = pid \<and> price item = pr)
                         (concat (map items (filter (\<lambda>ord. customer_id ord = cds_customerId s) ords))) of
                    [] \<Rightarrow> []
                  | x # g \<Rightarrow> [x\<lparr>quantity := sum_list (map quantity (x # g)),
                                total := sum_list (map total (x # g))\<rparr>]))"
  proof
    fix s assume "s \<in> set (customerDailySummaries localeCompare numberToString ords)"
    from customerDailySummaries_member[OF this] show "cds_orderIds s = map oid (filter (\<lambda>ord. customer_id ord = cds_customerId s) ords) \<and>
            cds_totalAmount s
              = sum_list (map total_amount (filter (\<lambda>ord. customer_id ord = cds_customerId s) ords)) \<and>
            cds_amountPaid s
              = sum_list (map paid (filter (\<lambda>ord. customer_id ord = cds_customerId s) ords)) \<and>
            sorted_wrt (\<lambda>a b. localeCompare (product_name a) (product_name b) \<le> 0) (cds_allItems s) \<and>
            (\<forall>pid pr.
               filter (\<lambda>row. product_id row = pid \<and> price row = pr) (cds_allItems s) =
                 (case filter (\<lambda>item. product_id item = pid \<and> price item = pr)
                         (concat (map items (filter (\<lambda>ord. customer_id ord = cds_customerId s) ords))) of
                    [] \<Rightarrow> []
                  | x # g \<Rightarrow> [x\<lparr>quantity := sum_list (map quantity (x # g)),
                                total := sum_list (map total (x # g))\<rparr>]))"
      using rows sorted by simp
  qed
  have keys: "mset (map cds_customerId (customerDailySummaries localeCompare numberToString ords))
                = mset (map fst (summaryMap ords))"
    by (rule customerDailySummaries_customers)
  have "distinct (map fst (summaryMap ords))"
    unfolding summaryMap_def by (rule distinct_collect)
  with keys have dist: "distinct (map cds_customerId (customerDailySummaries localeCompare numberToString ords))"
    by (metis mset_eq_imp_distinct_iff)
  have "set (map cds_customerId (customerDailySummaries localeCompare numberToString ords))
          = set (map fst (summaryMap ords))"
    using keys by (rule mset_eq_setD)
  then have cover: "cds_customerId ` set (customerDailySummaries localeCompare numberToString ords)
           = customer_id ` set ords"
    using keys_collect[of customer_id "\<lambda>ord. addToCustomerSummary ord (emptyCustomerSummary ord)"
        addToCustomerSummary ords]
    by (simp add: summaryMap_def)
  have days: "\<forall>s\<in>set (getDailySummariesForStatement localeCompare numberToString ords).
            dss_totalAmount s = sum_list (map total_amount (filter (\<lambda>ord. date ord = dss_date s) ords)) \<and>
            dss_totalPaid s = sum_list (map paid (filter (\<lambda>ord. date ord = dss_date s) ords)) \<and>
            dss_balance s = dss_totalAmount s - dss_totalPaid s \<and>
            sorted_wrt (\<lambda>a b. localeCompare (product_name a) (product_name b) \<le> 0) (dss_allItems s) \<and>
            (\<forall>pid pr.
               filter (\<lambda>row. product_id row = pid \<and> price row = pr) (dss_allItems s) =
                 (case filter (\<lambda>item. product_id item = pid \<and> price item = pr)
                         (concat (map items (filter (\<lambda>ord. date ord = dss_date s) ords))) of
                    [] \<Rightarrow> []
                  | x # g \<Rightarrow> [x\<lparr>quantity := sum_list (map quantity (x # g)),
                                total := sum_list (map total (x # g))\<rparr>]))"
  proof
    fix s assume "s \<in> set (getDailySummariesForStatement localeCompare numberToString ords)"
    from getDailySummariesForStatement_member[OF this] show "dss_totalAmount s = sum_list (map total_amount (filter (\<lambda>ord. date ord = dss_date s) ords)) \<and>
            dss_totalPaid s = sum_list (map paid (filter (\<lambda>ord. date ord = dss_date s) ords)) \<and>
            dss_balance s = dss_totalAmount s - dss_totalPaid s \<and>
            sorted_wrt (\<lambda>a b. localeCompare (product_name a) (product_name b) \<le> 0) (dss_allItems s) \<and>
            (\<forall>pid pr.
               filter (\<lambda>row. product_id row = pid \<and> price row = pr) (dss_allItems s) =
                 (case filter (\<lambda>item. product_id item = pid \<and> price item = pr)
                         (concat (map items (filter (\<lambda>ord. date ord = dss_date s) ords))) of
                    [] \<Rightarrow> []
                  | x # g \<Rightarrow> [x\<lparr>quantity := sum_list (map quantity (x # g)),
                                total := sum_list (map total (x # g))\<rparr>]))"
      using rows sorted by simp
  qed
  have dkeys: "mset (map dss_date (getDailySummariesForStatement localeCompare numberToString ords))
                = mset (map fst (statementGroupedByDate ords))"
    by (rule getDailySummariesForStatement_dates)
  have "distinct (map fst (statementGroupedByDate ords))"
    unfolding statementGroupedByDate_def by (rule distinct_collect)
  then have ddist: "distinct (map dss_date (getDailySummariesForStatement localeCompare numberToString ords))"
    by (simp only: mset_eq_imp_distinct_iff[OF dkeys])
  have "set (map dss_date (getDailySummariesForStatement localeCompare numberToString ords))
          = set (map fst (statementGroupedByDate ords))"
    using dkeys by (rule mset_eq_setD)
  then have dcover: "dss_date ` set (getDailySummariesForStatement localeCompare numberToString ords)
           = date ` set ords"
    using keys_collect[of date "\<lambda>ord. addToStatementDay ord (emptyStatementDay (date ord))"
        addToStatementDay ords]
    by (simp add: statementGroupedByDate_def)
  have dsorted: "sorted (map (\<lambda>s. - dss_date s)
                     (getDailySummariesForStatement localeCompare numberToString ords))"
    unfolding getDailySummariesForStatement_def js_sort_descending by (rule sorted_sort_key)
  have csorted: "sorted_wrt (\<lambda>a b. localeCompare (cds_customerName a) (cds_customerName b) \<le> 0)
           (customerDailySummaries localeCompare numberToString ords)"
    unfolding customerDailySummaries_def
    by (rule sorted_js_sort[of "\<lambda>a b. localeCompare (cds_customerName a) (cds_customerName b)"])
       (rule consistent_on_field, rule assms(1))
  show ?thesis
    apply (intro conjI)
    subgoal by (rule orders)
    subgoal by (rule dist)
    subgoal by (rule cover)
    subgoal by (rule days)
    subgoal by (rule ddist)
    subgoal by (rule dcover)
    subgoal by (rule dsorted)
    subgoal by (rule csorted)
    done
qed

lemma consistent_codeUnitCompare: "consistent codeUnitCompare"
  by (auto simp: consistent_def codeUnitCompare_def)

theorem aggregator_merge_witness:
  "customerDailySummaries codeUnitCompare example_numberToString
       [example_morning_order, example_late_order, example_evening_order]
     = [\<lparr>cds_customerId = ''customer1'', cds_customerName = ''Asha'',
         cds_orderIds = [''order5'', ''order6''],
         cds_allItems = [example_curd,
                         example_item\<lparr>quantity := 3, total := 150\<rparr>,
                         example_item\<lparr>quantity := 1, price := 55, total := 55\<rparr>],
         cds_totalAmount = 235, cds_amountPaid = 100\<rparr>,
        \<lparr>cds_customerId = ''customer2'', cds_customerName = ''Bina'',
         cds_orderIds = [''order7''], cds_allItems = [],
         cds_totalAmount = 40, cds_amountPaid = 40\<rparr>] \<and>
   getDailySummariesForStatement codeUnitCompare example_numberToString
       [example_morning_order, example_late_order, example_evening_order]
     = [\<lparr>dss_date = 259200000, dss_totalAmount = 40, dss_totalPaid = 40, dss_balance = 0,
         dss_allItems = []\<rparr>,
        \<lparr>dss_date = 0, dss_totalAmount = 235, dss_totalPaid = 100, dss_balance = 135,
         dss_allItems = [example_curd,
                         example_item\<lparr>quantity := 3, total := 150\<rparr>,
                         example_item\<lparr>quantity := 1, price := 55, total := 55\<rparr>]\<rparr>] \<and>
   distinct (map dss_date (getDailySummariesForStatement codeUnitCompare example_numberToString
       [example_morning_order, example_late_order, example_evening_order])) \<and>
   dss_date ` set (getDailySummariesForStatement codeUnitCompare example_numberToString
       [example_morning_order, example_late_order, example_evening_order])
     = date ` set [example_morning_order, example_late_order, example_evening_order] \<and>
   distinct (map cds_customerId (customerDailySummaries codeUnitCompare example_numberToString
       [example_morning_order, example_late_order, example_evening_order])) \<and>
   cds_customerId ` set (customerDailySummaries codeUnitCompare example_numberToString
       [example_morning_order, example_late_order, example_evening_order])
     = customer_id ` set [example_morning_order, example_late_order, example_evening_order]"
proof -
  have len: "\<forall>ord\<in>set [example_morning_order, example_late_order, example_evening_order].
      \<forall>ord'\<in>set [example_morning_order, example_late_order, example_evening_order].
        \<forall>i\<in>set (items ord). \<forall>j\<in>set (items ord'). length (product_id i) = length (product_id j)"
    by (simp add: example_morning_order_def example_evening_order_def example_late_order_def
        example_item_def example_curd_def)
  have inj: "inj_on example_numberToString
     (price ` (\<Union>ord\<in>set [example_morning_order, example_late_order, example_evening_order].
                 set (items ord)))"
    by (auto simp: inj_on_def example_morning_order_def example_evening_order_def
        example_late_order_def example_item_def example_curd_def example_numberToString_def)
  have val: "customerDailySummaries codeUnitCompare example_numberToString
       [example_morning_order, example_late_order, example_evening_order]
     = [\<lparr>cds_customerId = ''customer1'', cds_customerName = ''Asha'',
         cds_orderIds = [''order5'', ''order6''],
         cds_allItems = [example_curd,
                         example_item\<lparr>quantity := 3, total := 150\<rparr>,
                         example_item\<lparr>quantity := 1, price := 55, total := 55\<rparr>],
         cds_totalAmount = 235, cds_amountPaid = 100\<rparr>,
        \<lparr>cds_customerId = ''customer2'', cds_customerName = ''Bina'',
         cds_orderIds = [''order7''], cds_allItems = [],
         cds_totalAmount = 40, cds_amountPaid = 40\<rparr>]"
    by (simp add: customerDailySummaries_def summaryMap_def mergedItems_def aggregatedItems_def
        js_sort_def addToCustomerSummary_def emptyCustomerSummary_def mergeItem_def itemKey_def
        codeUnitCompare_def example_numberToString_def example_morning_order_def
        example_evening_order_def example_late_order_def example_item_def example_curd_def
        paid_def)
  have days: "getDailySummariesForStatement codeUnitCompare example_numberToString
       [example_morning_order, example_late_order, example_evening_order]
     = [\<lparr>dss_date = 259200000, dss_totalAmount = 40, dss_totalPaid = 40, dss_balance = 0,
         dss_allItems = []\<rparr>,
        \<lparr>dss_date = 0, dss_totalAmount = 235, dss_totalPaid = 100, dss_balance = 135,
         dss_allItems = [example_curd,
                         example_item\<lparr>quantity := 3, total := 150\<rparr>,
                         example_item\<lparr>quantity := 1, price := 55, total := 55\<rparr>]\<rparr>]"
    by (simp add: getDailySummariesForStatement_def statementGroupedByDate_def mergedItems_def
        aggregatedItems_def js_sort_def addToStatementDay_def emptyStatementDay_def mergeItem_def
        itemKey_def codeUnitCompare_def example_numberToString_def example_morning_order_def
        example_evening_order_def example_late_order_def example_item_def example_curd_def
        paid_def)
  note merged = aggregator_merge[OF consistent_codeUnitCompare len inj]
  note customers = merged[THEN conjunct2, THEN conjunct1]
    merged[THEN conjunct2, THEN conjunct2, THEN conjunct1]
  note dates = merged[THEN conjunct2, THEN conjunct2, THEN conjunct2, THEN conjunct2, THEN conjunct1]
    merged[THEN conjunct2, THEN conjunct2, THEN conjunct2, THEN conjunct2, THEN conjunct2,
      THEN conjunct1]
  show ?thesis
    apply (intro conjI)
    subgoal by (rule val)
    subgoal by (rule days)
    subgoal by (rule dates(1))
    subgoal by (rule dates(2))
    subgoal by (rule customers(1))
    subgoal by (rule customers(2))
    done
qed

section \<open>Properties of the statement generator\<close>

lemma utcMidnight_day: "utcMidnight t = 86400000 * (t div 86400000)"
  unfolding utcMidnight_def by (simp add: minus_mod_eq_mult_div)

lemma utcMidnight_le_iff:
  "utcMidnight a \<le> utcMidnight b \<longleftrightarrow> a div 86400000 \<le> b div 86400000"
  unfolding utcMidnight_day by simp

lemma inStatement_iff:
  "inStatement forCustomerId rangeStart rangeEnd ord \<longleftrightarrow>
     rangeStart div 86400000 \<le> date ord div 86400000 \<and>
     date ord div 86400000 \<le> rangeEnd div 86400000 \<and>
     (forCustomerId = ''all'' \<or> customer_id ord = forCustomerId)"
  by (simp add: inStatement_def Let_def utcMidnight_le_iff)

lemma foldl_snoc_group: "foldl (\<lambda>grp y. grp @ [y]) grp g = grp @ g"
  by (induction g arbitrary: grp) simp_all

lemma ordersByCustomer_entry:
  "(k, grp) \<in> set (ordersByCustomer ords) \<longleftrightarrow>
     grp = filter (\<lambda>ord. customer_id ord = k) ords \<and> grp \<noteq> []"
  unfolding ordersByCustomer_def collect_entry foldl_snoc_group
  by (cases "filter (\<lambda>ord. customer_id ord = k) ords") auto

lemma sum_list_upsert_group:
  fixes f :: "'a \<Rightarrow> rat"
  shows "sum_list (map (\<lambda>entry. sum_list (map f (snd entry))) (upsert k [x] (\<lambda>grp. grp @ [x]) kvs))
       = sum_list (map (\<lambda>entry. sum_list (map f (snd entry))) kvs) + f x"
  by (induction kvs) auto

lemma sum_list_groups:
  fixes f :: "daily_order \<Rightarrow> rat"
  shows "sum_list (map (\<lambda>entry. sum_list (map f (snd entry))) (ordersByCustomer ords))
       = sum_list (map f ords)"
  unfolding ordersByCustomer_def
  by (induction ords rule: rev_induct) (simp_all add: sum_list_upsert_group)

lemma mset_upsert_group:
  "mset (concat (map snd (upsert k [x] (\<lambda>grp. grp @ [x]) kvs)))
     = add_mset x (mset (concat (map snd kvs)))"
  by (induction kvs) auto

lemma mset_groups: "mset (concat (map snd (ordersByCustomer ords))) = mset ords"
  unfolding ordersByCustomer_def
  by (induction ords rule: rev_induct) (simp_all add: mset_upsert_group)

lemma customerStatement_fields:
  "cs_customerId (customerStatement (k, grp)) = k"
  "mset (cs_orders (customerStatement (k, grp))) = mset grp"
  "cs_totalAmount (customerStatement (k, grp)) = sum_list (map total_amount grp)"
  "cs_totalPaid (customerStatement (k, grp)) = sum_list (map paid grp)"
  "cs_pendingAmount (customerStatement (k, grp))
     = cs_totalAmount (customerStatement (k, grp)) - cs_totalPaid (customerStatement (k, grp))"
  by (simp_all add: customerStatement_def Let_def foldl_plus_sum_list)


lemma mset_concat_perm:
  "mset xs = mset ys \<Longrightarrow> mset (concat (map f xs)) = mset (concat (map f ys))"
proof -
  assume perm: "mset xs = mset ys"
  have "mset (concat (map f zs)) = sum_mset (image_mset (\<lambda>z. mset (f z)) (mset zs))" for zs
    by (induction zs) simp_all
  with perm show ?thesis by simp
qed

text \<open>
  C9 (statement on a range): the orders selected are those whose UTC day lies between
  the day of the start and the day of the end, both included, and that match the
  customer filter; the orders of the customer statements are these orders, every
  customer statement holds the selected orders of one customer with the sums of their
  totals and paid amounts and the difference as pending amount, no customer has two
  statements, the grand totals are the sums over the selected orders, and with no order
  selected the result has no customer statement and zero totals.
\<close>

theorem statement_generation:
  "(let selected = filter (\<lambda>ord. rangeStart div 86400000 \<le> date ord div 86400000 \<and>
                                date ord div 86400000 \<le> rangeEnd div 86400000 \<and>
                                (forCustomerId = ''all'' \<or> customer_id ord = forCustomerId)) ords;
        r = generateStatementData localeCompare ords forCustomerId rangeStart rangeEnd
    in totalOrders r = length selected \<and>
       mset (concat (map cs_orders (customerStatements r))) = mset selected \<and>
       distinct (map cs_customerId (customerStatements r)) \<and>
       (\<forall>cs\<in>set (customerStatements r).
          cs_orders cs \<noteq> [] \<and>
          mset (cs_orders cs) = mset (filter (\<lambda>ord. customer_id ord = cs_customerId cs) selected) \<and>
          cs_totalAmount cs
            = sum_list (map total_amount (filter (\<lambda>ord. customer_id ord = cs_customerId cs) selected)) \<and>
          cs_totalPaid cs
            = sum_list (map paid (filter (\<lambda>ord. customer_id ord = cs_customerId cs) selected)) \<and>
          cs_pendingAmount cs = cs_totalAmount cs - cs_totalPaid cs) \<and>
       grandTotalAmount r = sum_list (map total_amount selected) \<and>
       grandTotalPaid r = sum_list (map paid selected) \<and>
       grandTotalPending r = grandTotalAmount r - grandTotalPaid r \<and>
       (selected = [] \<longrightarrow>
          customerStatements r = [] \<and> grandTotalAmount r = 0 \<and> grandTotalPaid r = 0 \<and>
          grandTotalPending r = 0 \<and> totalOrders r = 0))"
proof -
  let ?sel = "filter (\<lambda>ord. rangeStart div 86400000 \<le> date ord div 86400000 \<and>
                                date ord div 86400000 \<le> rangeEnd div 86400000 \<and>
                                (forCustomerId = ''all'' \<or> customer_id ord = forCustomerId)) ords"
  let ?r = "generateStatementData localeCompare ords forCustomerId rangeStart rangeEnd"
  let ?E = "ordersByCustomer ?sel"
  let ?S = "map customerStatement ?E"
  have sel: "filter (inStatement forCustomerId rangeStart rangeEnd) ords = ?sel"
    by (rule filter_cong) (simp_all add: inStatement_iff)
  have cs: "customerStatements ?r
      = js_sort (\<lambda>a b. localeCompare (cs_customerName a) (cs_customerName b)) ?S"
    and ga: "grandTotalAmount ?r = sum_list (map cs_totalAmount ?S)"
    and gp: "grandTotalPaid ?r = sum_list (map cs_totalPaid ?S)"
    and gd: "grandTotalPending ?r = grandTotalAmount ?r - grandTotalPaid ?r"
    and n: "totalOrders ?r = length ?sel"
    by (simp_all add: generateStatementData_def Let_def sel foldl_plus_sum_list)
  have perm: "mset (customerStatements ?r) = mset ?S"
    by (simp add: cs)
  have "mset (concat (map cs_orders (customerStatements ?r))) = mset (concat (map cs_orders ?S))"
    using perm by (rule mset_concat_perm)
  also have "\<dots> = mset (concat (map snd ?E))"
  proof -
    have "mset (concat (map cs_orders (map customerStatement es))) = mset (concat (map snd es))" for es
      by (induction es) (auto simp: customerStatement_fields)
    then show ?thesis .
  qed
  also have "\<dots> = mset ?sel" by (rule mset_groups)
  finally have all: "mset (concat (map cs_orders (customerStatements ?r))) = mset ?sel" .
  have ids: "map cs_customerId ?S = map fst ?E"
    by (auto simp: customerStatement_fields)
  have "mset (map cs_customerId (customerStatements ?r)) = mset (map cs_customerId ?S)"
    using perm by (simp only: mset_map)
  then have keys: "mset (map cs_customerId (customerStatements ?r)) = mset (map fst ?E)"
    by (simp only: ids)
  have "distinct (map fst ?E)"
    unfolding ordersByCustomer_def by (rule distinct_collect)
  then have dist: "distinct (map cs_customerId (customerStatements ?r))"
    by (simp only: mset_eq_imp_distinct_iff[OF keys])
  have each: "cs_orders c \<noteq> [] \<and>
          mset (cs_orders c) = mset (filter (\<lambda>ord. customer_id ord = cs_customerId c) ?sel) \<and>
          cs_totalAmount c
            = sum_list (map total_amount (filter (\<lambda>ord. customer_id ord = cs_customerId c) ?sel)) \<and>
          cs_totalPaid c
            = sum_list (map paid (filter (\<lambda>ord. customer_id ord = cs_customerId c) ?sel)) \<and>
          cs_pendingAmount c = cs_totalAmount c - cs_totalPaid c"
    if "c \<in> set (customerStatements ?r)" for c
  proof -
    from that have "c \<in> set ?S" by (simp add: cs)
    then obtain k grp where e: "(k, grp) \<in> set ?E" and c: "c = customerStatement (k, grp)"
      by auto
    from e[unfolded ordersByCustomer_entry]
    have grp: "grp = filter (\<lambda>ord. customer_id ord = k) ?sel" "grp \<noteq> []"
      by blast+
    have "mset (cs_orders c) \<noteq> {#}"
      unfolding c customerStatement_fields using grp(2) by simp
    then have "cs_orders c \<noteq> []" by auto
    then show ?thesis
      unfolding c customerStatement_fields using grp(1) by simp
  qed
  have total: "grandTotalAmount ?r = sum_list (map total_amount ?sel)"
  proof -
    have "map cs_totalAmount ?S = map (\<lambda>entry. sum_list (map total_amount (snd entry))) ?E"
      by (auto simp: customerStatement_fields)
    then show ?thesis
      unfolding ga by (simp only: sum_list_groups)
  qed
  have paidsum: "grandTotalPaid ?r = sum_list (map paid ?sel)"
  proof -
    have "map cs_totalPaid ?S = map (\<lambda>entry. sum_list (map paid (snd entry))) ?E"
      by (auto simp: customerStatement_fields)
    then show ?thesis
      unfolding gp by (simp only: sum_list_groups)
  qed
  have empty: "customerStatements ?r = [] \<and> grandTotalAmount ?r = 0 \<and> grandTotalPaid ?r = 0 \<and>
          grandTotalPending ?r = 0 \<and> totalOrders ?r = 0" if "?sel = []"
  proof -
    from that have "?E = []" by (simp add: ordersByCustomer_def)
    then have "customerStatements ?r = []" by (simp add: cs js_sort_def)
    with that total paidsum gd n show ?thesis by simp
  qed
  show ?thesis
    unfolding Let_def
    apply (intro conjI ballI impI)
    subgoal by (rule n)
    subgoal by (rule all)
    subgoal by (rule dist)
    subgoal for c using each[of c] by simp
    subgoal for c using each[of c] by simp
    subgoal for c using each[of c] by simp
    subgoal for c using each[of c] by simp
    subgoal for c using each[of c] by simp
    subgoal by (rule total)
    subgoal by (rule paidsum)
    subgoal by (rule gd)
    subgoal using empty by simp
    subgoal using empty by simp
    subgoal using empty by simp
    subgoal using empty by simp
    subgoal using empty by simp
    done
qed


theorem statement_generation_witness:
  "generateStatementData codeUnitCompare [example_order1, example_late_order, example_order2]
      ''all'' 3600000 90000000
     = \<lparr>customerStatements =
          [\<lparr>cs_customerId = ''customer1'', cs_customerName = ''Asha'',
            cs_orders = [example_order1, example_order2], cs_totalAmount = 150, cs_totalPaid = 0,
            cs_pendingAmount = 150\<rparr>],
        grandTotalAmount = 150, grandTotalPaid = 0, grandTotalPending = 150, totalOrders = 2\<rparr> \<and>
   filter (\<lambda>ord. (864000000::int) div 86400000 \<le> date ord div 86400000 \<and>
                  date ord div 86400000 \<le> (950400000::int) div 86400000 \<and>
                  (''all'' = ''all'' \<or> customer_id ord = ''all''))
      [example_order1, example_late_order, example_order2] = [] \<and>
   generateStatementData codeUnitCompare [example_order1, example_late_order, example_order2]
      ''all'' 864000000 950400000
     = \<lparr>customerStatements = [], grandTotalAmount = 0, grandTotalPaid = 0, grandTotalPending = 0,
        totalOrders = 0\<rparr>"
proof -
  have first: "generateStatementData codeUnitCompare [example_order1, example_late_order, example_order2]
      ''all'' 3600000 90000000
     = \<lparr>customerStatements =
          [\<lparr>cs_customerId = ''customer1'', cs_customerName = ''Asha'',
            cs_orders = [example_order1, example_order2], cs_totalAmount = 150, cs_totalPaid = 0,
            cs_pendingAmount = 150\<rparr>],
        grandTotalAmount = 150, grandTotalPaid = 0, grandTotalPending = 150, totalOrders = 2\<rparr>"
    by (simp add: generateStatementData_def inStatement_def utcMidnight_def ordersByCustomer_def
        customerStatement_def statementName_def js_sort_def Let_def paid_def
        example_order1_def example_order2_def example_late_order_def)
  have none: "filter (\<lambda>ord. (864000000::int) div 86400000 \<le> date ord div 86400000 \<and>
                  date ord div 86400000 \<le> (950400000::int) div 86400000 \<and>
                  (''all'' = ''all'' \<or> customer_id ord = ''all''))
      [example_order1, example_late_order, example_order2] = []"
    by (simp add: example_order1_def example_order2_def example_late_order_def)
  from statement_generation[where rangeStart = 864000000 and rangeEnd = 950400000
      and forCustomerId = "''all''" and localeCompare = codeUnitCompare
      and ords = "[example_order1, example_late_order, example_order2]"]
  have "generateStatementData codeUnitCompare [example_order1, example_late_order, example_order2]
      ''all'' 864000000 950400000
     = \<lparr>customerStatements = [], grandTotalAmount = 0, grandTotalPaid = 0, grandTotalPending = 0,
        totalOrders = 0\<rparr>"
    unfolding Let_def none by simp
  with first none show ?thesis by blast
qed

end
